theory Spec2Isabelle
  imports Complex_Main
begin

section \<open>Representative selection on phylogenetic trees\<close>

text \<open>
  The command-line driver \<^verbatim>\<open>parnas.py\<close> calls the solver \<^verbatim>\<open>find_n_medoids\<close> of
  \<^verbatim>\<open>parnaslib.medoids\<close> and colours the resulting clusters. The driver (the cover-mode
  loop and \<^verbatim>\<open>color_by_clusters\<close>) is embedded from its source. The solver's own source
  is not part of the files at hand; it is modelled from its specification in the
  first part of this theory.
\<close>

subsection \<open>Distances that may be infinite\<close>

text \<open>
  A leaf without any representative is at distance +infinity (Python's
  \<^verbatim>\<open>math.inf\<close>). Finite values are exact reals: the rounding of floating point
  is not modelled.
\<close>

datatype ext = Fin real | PInf

fun ele :: "ext \<Rightarrow> ext \<Rightarrow> bool" where
  "ele (Fin a) (Fin b) = (a \<le> b)"
| "ele PInf (Fin b) = False"
| "ele x PInf = True"

fun emin :: "ext \<Rightarrow> ext \<Rightarrow> ext" where
  "emin x y = (if ele x y then x else y)"

fun eadd :: "ext \<Rightarrow> ext \<Rightarrow> ext" where
  "eadd (Fin a) (Fin b) = Fin (a + b)"
| "eadd PInf y = PInf"
| "eadd x PInf = PInf"

fun emin_list :: "ext list \<Rightarrow> ext" where
  "emin_list [] = PInf"
| "emin_list (x # xs) = emin x (emin_list xs)"

fun esum :: "ext list \<Rightarrow> ext" where
  "esum [] = Fin 0"
| "esum (x # xs) = eadd x (esum xs)"

subsection \<open>The tree model\<close>

text \<open>
  Modelled from the spec: the binarized tree of the data model (section 3), whose
  source (\<^verbatim>\<open>parnaslib.medoids\<close>) is missing. A leaf carries its taxon label; an
  internal node owns exactly two children, each with the length of the edge to it.
\<close>

datatype tree = Leaf string | Node tree real tree real

fun leaves :: "tree \<Rightarrow> string list" where
  "leaves (Leaf x) = [x]"
| "leaves (Node l el r er) = leaves l @ leaves r"

fun nonneg_edges :: "tree \<Rightarrow> bool" where
  "nonneg_edges (Leaf x) = True"
| "nonneg_edges (Node l el r er) = (0 \<le> el \<and> 0 \<le> er \<and> nonneg_edges l \<and> nonneg_edges r)"

text \<open>
  Modelled from the spec: the distance oracle (section 4.2). \<open>depth t x\<close> is the
  sum of the edge lengths from the root of \<open>t\<close> down to the leaf labelled \<open>x\<close>, and
  \<open>distance t u v\<close> the sum of the edge lengths on the path between the leaves
  \<open>u\<close> and \<open>v\<close>, which runs through their lowest common ancestor.
\<close>

fun depth :: "tree \<Rightarrow> string \<Rightarrow> real option" where
  "depth (Leaf y) x = (if x = y then Some 0 else None)"
| "depth (Node l el r er) x =
     (case depth l x of
        Some d \<Rightarrow> Some (el + d)
      | None \<Rightarrow> (case depth r x of Some d \<Rightarrow> Some (er + d) | None \<Rightarrow> None))"

fun distance :: "tree \<Rightarrow> string \<Rightarrow> string \<Rightarrow> real option" where
  "distance (Leaf y) u v = (if u = y \<and> v = y then Some 0 else None)"
| "distance (Node l el r er) u v =
     (case distance l u v of
        Some d \<Rightarrow> Some d
      | None \<Rightarrow>
         (case distance r u v of
            Some d \<Rightarrow> Some d
          | None \<Rightarrow>
             (case (depth l u, depth r v) of
                (Some a, Some b) \<Rightarrow> Some (el + a + (er + b))
              | _ \<Rightarrow>
                 (case (depth r u, depth l v) of
                    (Some a, Some b) \<Rightarrow> Some (er + a + (el + b))
                  | _ \<Rightarrow> None))))"

definition dist_ext :: "tree \<Rightarrow> string \<Rightarrow> string \<Rightarrow> ext" where
  "dist_ext t u v = (case distance t u v of Some d \<Rightarrow> Fin d | None \<Rightarrow> PInf)"

text \<open>
  Modelled from the spec: the distance from a leaf to the closest member of a set
  of leaves, +infinity for the empty set. With the prior centers as the set this
  is \<open>baselineDistance\<close>.
\<close>

definition nearest :: "tree \<Rightarrow> string list \<Rightarrow> string \<Rightarrow> ext" where
  "nearest t S l = emin_list (map (dist_ext t l) S)"

definition baselineDistance :: "tree \<Rightarrow> string list \<Rightarrow> string \<Rightarrow> ext" where
  "baselineDistance t priorCenters l = nearest t priorCenters l"

text \<open>
  Modelled from the spec: the threshold function of section 4.2,
  \<^verbatim>\<open>coverage(x, radius) = 0 if radius is set and x <= radius, x otherwise\<close>.
\<close>

fun coverage :: "ext \<Rightarrow> real option \<Rightarrow> ext" where
  "coverage x None = x"
| "coverage x (Some radius) = (if ele x (Fin radius) then Fin 0 else x)"

subsection \<open>Taxon classes\<close>

datatype TaxonClass = Selectable | ExcludedCounted | FullyExcluded

text \<open>Modelled from the spec: the cost classifier of section 4.3.\<close>

definition classify :: "string list \<Rightarrow> string list \<Rightarrow> string \<Rightarrow> TaxonClass" where
  "classify excluded fullyExcluded l =
     (if l \<in> set fullyExcluded then FullyExcluded
      else if l \<in> set excluded then ExcludedCounted
      else Selectable)"

definition selectable :: "tree \<Rightarrow> string list \<Rightarrow> string list \<Rightarrow> string list" where
  "selectable t excluded fullyExcluded =
     filter (\<lambda>l. classify excluded fullyExcluded l = Selectable) (leaves t)"

definition counted :: "tree \<Rightarrow> string list \<Rightarrow> string list \<Rightarrow> string list" where
  "counted t excluded fullyExcluded =
     filter (\<lambda>l. classify excluded fullyExcluded l \<noteq> FullyExcluded) (leaves t)"

subsection \<open>The objective and the solver\<close>

text \<open>
  Modelled from the spec: the objective of section 4.4,
  \<^verbatim>\<open>cost(S) = sum over leaves l with class != FullyExcluded of
     coverage(min(baselineDistance(l), min_{s in S} distance(l, s)), radius)\<close>.
\<close>

definition cost ::
  "tree \<Rightarrow> real option \<Rightarrow> string list \<Rightarrow> string list \<Rightarrow> string list \<Rightarrow> string list \<Rightarrow> ext" where
  "cost t radius priorCenters excluded fullyExcluded S =
     esum (map (\<lambda>l. coverage (emin (baselineDistance t priorCenters l) (nearest t S l)) radius)
               (counted t excluded fullyExcluded))"

text \<open>The size-\<open>n\<close> subsets of a list, each in the order of the list.\<close>

fun combos :: "nat \<Rightarrow> 'a list \<Rightarrow> 'a list list" where
  "combos 0 xs = [[]]"
| "combos (Suc n) [] = []"
| "combos (Suc n) (x # xs) = map ((#) x) (combos n xs) @ combos (Suc n) xs"

definition candidates :: "tree \<Rightarrow> nat \<Rightarrow> string list \<Rightarrow> string list \<Rightarrow> string list list" where
  "candidates t n excluded fullyExcluded = combos n (selectable t excluded fullyExcluded)"

definition opt_cost ::
  "tree \<Rightarrow> nat \<Rightarrow> real option \<Rightarrow> string list \<Rightarrow> string list \<Rightarrow> string list \<Rightarrow> ext" where
  "opt_cost t n radius priorCenters excluded fullyExcluded =
     emin_list (map (cost t radius priorCenters excluded fullyExcluded)
                    (candidates t n excluded fullyExcluded))"

text \<open>
  Every representative set that attains the minimum. Ties are resolved
  arbitrarily by the solver: each member of this list is an acceptable answer.
\<close>

definition optimal_sets ::
  "tree \<Rightarrow> nat \<Rightarrow> real option \<Rightarrow> string list \<Rightarrow> string list \<Rightarrow> string list \<Rightarrow> string list list" where
  "optimal_sets t n radius priorCenters excluded fullyExcluded =
     filter (\<lambda>S. cost t radius priorCenters excluded fullyExcluded S
                   = opt_cost t n radius priorCenters excluded fullyExcluded)
            (candidates t n excluded fullyExcluded)"

definition radius_ok :: "real option \<Rightarrow> bool" where
  "radius_ok radius = (case radius of None \<Rightarrow> True | Some r \<Rightarrow> 0 \<le> r)"

datatype solve_error = InvalidConfiguration | DegenerateTree

definition valid_config ::
  "tree \<Rightarrow> nat \<Rightarrow> real option \<Rightarrow> string list \<Rightarrow> string list \<Rightarrow> string list \<Rightarrow> bool" where
  "valid_config t n radius priorCenters excluded fullyExcluded =
     (n \<le> length (selectable t excluded fullyExcluded)
      \<and> radius_ok radius
      \<and> list_all (\<lambda>l. l \<in> set (leaves t)) (priorCenters @ excluded @ fullyExcluded)
      \<and> list_all (\<lambda>l. l \<notin> set fullyExcluded) excluded)"

text \<open>
  Modelled from the spec: the public operation \<open>solve\<close> of section 4.4
  (\<^verbatim>\<open>find_n_medoids\<close> in the driver), with its failure conditions checked before
  any optimisation. Among the optimal sets this model returns the first one in
  enumeration order; \<open>optimal_sets\<close> lists all of them.
\<close>

definition solve ::
  "tree \<Rightarrow> nat \<Rightarrow> real option \<Rightarrow> string list \<Rightarrow> string list \<Rightarrow> string list
     \<Rightarrow> solve_error + (string list \<times> ext)" where
  "solve t n radius priorCenters excluded fullyExcluded =
     (if length (leaves t) < 2 then Inl DegenerateTree
      else if \<not> valid_config t n radius priorCenters excluded fullyExcluded
        then Inl InvalidConfiguration
      else (case optimal_sets t n radius priorCenters excluded fullyExcluded of
              [] \<Rightarrow> Inl InvalidConfiguration
            | S # _ \<Rightarrow> Inr (S, opt_cost t n radius priorCenters excluded fullyExcluded)))"

subsection \<open>The cover-mode loop of the driver\<close>

text \<open>
  The variables the main program binds while it looks for representatives;
  \<open>None\<close> is a variable that is not bound yet. \<open>obj_value\<close> is the program's
  variable \<^verbatim>\<open>value\<close>.
\<close>

record cover_state =
  opt_n :: "int option"
  representatives :: "string list option"
  obj_value :: "ext option"

text \<open>
  \<^verbatim>\<open>for n in range(1, len(query_tree.leaf_nodes()) + 1):
      representatives, value = find_n_medoids(query_tree, n, ...)
      if value == 0:
          opt_n = n
          break\<close>
  The solver is a parameter of the loop; an exception of the solver (\<open>Inl\<close>)
  leaves the loop at once.
\<close>

fun cover_loop ::
  "(nat \<Rightarrow> 'e + string list \<times> ext) \<Rightarrow> nat list \<Rightarrow> cover_state \<Rightarrow> 'e + cover_state" where
  "cover_loop find_n_medoids [] st = Inr st"
| "cover_loop find_n_medoids (n # ns) st =
     (case find_n_medoids n of
        Inl err \<Rightarrow> Inl err
      | Inr (reps, v) \<Rightarrow>
          (let st' = st\<lparr>representatives := Some reps, obj_value := Some v\<rparr>
           in if v = Fin 0 then Inr (st'\<lparr>opt_n := Some (int n)\<rparr>)
              else cover_loop find_n_medoids ns st'))"

definition cover_search ::
  "(nat \<Rightarrow> 'e + string list \<times> ext) \<Rightarrow> nat \<Rightarrow> 'e + cover_state" where
  "cover_search find_n_medoids num_leaves =
     cover_loop find_n_medoids [1..<num_leaves + 1]
       \<lparr>opt_n = Some (- 1), representatives = None, obj_value = None\<rparr>"

text \<open>
  The selection step of the main program: one call of the solver with the
  requested \<open>n\<close>, or the loop in cover mode.
\<close>

definition select_representatives ::
  "bool \<Rightarrow> (nat \<Rightarrow> 'e + string list \<times> ext) \<Rightarrow> nat \<Rightarrow> nat \<Rightarrow> 'e + cover_state" where
  "select_representatives cover find_n_medoids n num_leaves =
     (if \<not> cover then
        (case find_n_medoids n of
           Inl err \<Rightarrow> Inl err
         | Inr (reps, v) \<Rightarrow>
             Inr \<lparr>opt_n = None, representatives = Some reps, obj_value = Some v\<rparr>)
      else cover_search find_n_medoids num_leaves)"

datatype py_error = NameError | IndexError | AttributeError | TypeError

datatype out_line = Info string | Print string

text \<open>
  The report that follows: a log line when no representative was chosen, else a
  log line and one printed line for each representative. Reading a variable
  that was never bound raises \<^verbatim>\<open>NameError\<close>.
\<close>

definition report :: "cover_state \<Rightarrow> py_error + out_line list" where
  "report st =
     (case representatives st of
        None \<Rightarrow> Inl NameError
      | Some reps \<Rightarrow>
          if length reps = 0
          then Inr [Info ''The diversity on the tree is already fully covered by the prior centers - no new representatives needed.'']
          else Inr (Info ''Chosen representatives:'' # map Print reps))"

text \<open>
  The driver's call \<^verbatim>\<open>find_n_medoids(query_tree, n, dist_functions, cost_map, max_dist=radius)\<close>
  with the modelled solver: the distance functions and the cost map stand for the
  prior centers and the exclusions they were built from.
\<close>

definition find_n_medoids ::
  "tree \<Rightarrow> real option \<Rightarrow> string list \<Rightarrow> string list \<Rightarrow> string list \<Rightarrow> nat
     \<Rightarrow> solve_error + string list \<times> ext" where
  "find_n_medoids t radius priorCenters excluded fullyExcluded n =
     solve t n radius priorCenters excluded fullyExcluded"

text \<open>The cover mode of the main program on a tree, with the modelled solver.\<close>

definition cover_main ::
  "tree \<Rightarrow> real option \<Rightarrow> string list \<Rightarrow> string list \<Rightarrow> string list
     \<Rightarrow> solve_error + cover_state" where
  "cover_main t radius priorCenters excluded fullyExcluded =
     cover_search (find_n_medoids t radius priorCenters excluded fullyExcluded)
       (length (leaves t))"

subsection \<open>Colouring the clusters\<close>

text \<open>
  The value of an annotation: \<^verbatim>\<open>None\<close>, an integer, a string, or one of the
  colours of the palette. The palette colour \<open>HsvColor i n\<close> is the string
  \<^verbatim>\<open>'#%02x%02x%02x'\<close> of the rounded RGB components of the HSV colour
  \<^verbatim>\<open>(i / n, 0.7, 0.7)\<close>; the floating-point conversion is not evaluated.
\<close>

datatype aval = NoneV | IntV int | StrV string | HsvColor nat nat

type_synonym annotation_set = "(string \<times> aval) list"

text \<open>
  The operations of an annotation set that the driver uses: \<^verbatim>\<open>drop(name=...)\<close>
  removes every annotation of that name, \<^verbatim>\<open>get_value(name)\<close> is the value of the
  first annotation of that name (\<^verbatim>\<open>None\<close> when there is none), and
  \<^verbatim>\<open>add_new(name, value)\<close> appends an annotation.
\<close>

definition drop_name :: "string \<Rightarrow> annotation_set \<Rightarrow> annotation_set" where
  "drop_name name anns = filter (\<lambda>a. fst a \<noteq> name) anns"

definition get_value :: "annotation_set \<Rightarrow> string \<Rightarrow> aval" where
  "get_value anns name = (case find (\<lambda>a. fst a = name) anns of None \<Rightarrow> NoneV | Some a \<Rightarrow> snd a)"

definition add_new :: "string \<Rightarrow> aval \<Rightarrow> annotation_set \<Rightarrow> annotation_set" where
  "add_new name v anns = anns @ [(name, v)]"

record edge =
  head_node :: "nat option"
  tail_node :: "nat option"

record taxon =
  label :: string
  annotations :: annotation_set

text \<open>
  The tree as far as the colouring touches it: its edges in the order of
  \<^verbatim>\<open>preorder_edge_iter\<close>, each with the identities of its head and tail nodes
  (\<open>None\<close> for a missing node, as the tail of the edge into the root), the
  annotation set of every node, and the taxon namespace. Nodes are shared between
  edges, so their annotation sets live in a store indexed by node identity.
\<close>

record dtree =
  edges :: "edge list"
  node_annotations :: "nat \<Rightarrow> annotation_set"
  taxon_namespace :: "taxon list"

text \<open>
  \<^verbatim>\<open>prior_centers\<close> is \<^verbatim>\<open>None\<close> or a list; \<^verbatim>\<open>if prior_centers\<close> holds for a list that
  is not empty.
\<close>

definition truthy :: "string list option \<Rightarrow> bool" where
  "truthy prior_centers = (case prior_centers of None \<Rightarrow> False | Some ps \<Rightarrow> ps \<noteq> [])"

definition prior_list :: "string list option \<Rightarrow> string list" where
  "prior_list prior_centers = (case prior_centers of None \<Rightarrow> [] | Some ps \<Rightarrow> ps)"

text \<open>
  Lines 26 to 33: \<open>n\<close> colours, one more than there are centers when there are
  prior centers; the first is then reserved for the prior centers
  (\<open>prior_color\<close>, unbound otherwise) and removed from \<open>hex_colors\<close>.
\<close>

definition all_colors :: "string list \<Rightarrow> string list option \<Rightarrow> aval list" where
  "all_colors centers prior_centers =
     (let n = (if \<not> truthy prior_centers then length centers else length centers + 1)
      in map (\<lambda>i. HsvColor i n) [0..<n])"

definition prior_color :: "string list \<Rightarrow> string list option \<Rightarrow> aval option" where
  "prior_color centers prior_centers =
     (if truthy prior_centers then Some (all_colors centers prior_centers ! 0) else None)"

definition hex_colors :: "string list \<Rightarrow> string list option \<Rightarrow> aval list" where
  "hex_colors centers prior_centers =
     (if truthy prior_centers then drop 1 (all_colors centers prior_centers)
      else all_colors centers prior_centers)"

text \<open>
  The test of line 40: both ends of the edge exist, the head's \<^verbatim>\<open>center\<close> is not
  \<^verbatim>\<open>None\<close> and equals the tail's.
\<close>

definition same_center :: "(nat \<Rightarrow> annotation_set) \<Rightarrow> edge \<Rightarrow> bool" where
  "same_center store e =
     (case (head_node e, tail_node e) of
        (Some h, Some t) \<Rightarrow>
          get_value (store h) ''center'' \<noteq> NoneV
          \<and> get_value (store h) ''center'' = get_value (store t) ''center''
      | _ \<Rightarrow> False)"

text \<open>
  The body of the loop over the edges (lines 37 to 47). Comparing a value that
  is no number with 0 raises \<^verbatim>\<open>TypeError\<close>, reading the unbound \<^verbatim>\<open>prior_color\<close>
  raises \<^verbatim>\<open>NameError\<close>, and an index beyond \<^verbatim>\<open>hex_colors\<close> raises \<^verbatim>\<open>IndexError\<close>.
\<close>

definition color_edge ::
  "aval option \<Rightarrow> aval list \<Rightarrow> (nat \<Rightarrow> annotation_set) \<Rightarrow> edge
     \<Rightarrow> py_error + (nat \<Rightarrow> annotation_set)" where
  "color_edge prior_col colors store e =
     (case head_node e of
        None \<Rightarrow> Inr store
      | Some h \<Rightarrow>
          (let store1 = store(h := drop_name ''!color'' (store h))
           in if same_center store1 e then
                (case get_value (store1 h) ''center'' of
                   IntV c \<Rightarrow>
                     if c < 0 then
                       (case prior_col of
                          None \<Rightarrow> Inl NameError
                        | Some pc \<Rightarrow> Inr (store1(h := add_new ''!color'' pc (store1 h))))
                     else if nat c < length colors
                       then Inr (store1(h := add_new ''!color'' (colors ! nat c) (store1 h)))
                       else Inl IndexError
                 | _ \<Rightarrow> Inl TypeError)
              else Inr store1))"

fun color_edges ::
  "aval option \<Rightarrow> aval list \<Rightarrow> (nat \<Rightarrow> annotation_set) \<Rightarrow> edge list
     \<Rightarrow> py_error + (nat \<Rightarrow> annotation_set)" where
  "color_edges prior_col colors store [] = Inr store"
| "color_edges prior_col colors store (e # es) =
     (case color_edge prior_col colors store e of
        Inl err \<Rightarrow> Inl err
      | Inr store' \<Rightarrow> color_edges prior_col colors store' es)"

text \<open>Lines 50 to 58: every taxon loses its colour, and the regular taxa become black.\<close>

definition black :: aval where
  "black = StrV ''#000000''"

definition special_taxa :: "string list \<Rightarrow> string list option \<Rightarrow> string set" where
  "special_taxa centers prior_centers =
     set (if truthy prior_centers then centers @ prior_list prior_centers else centers)"

definition color_regular :: "string set \<Rightarrow> taxon \<Rightarrow> taxon" where
  "color_regular special tx =
     (let anns = drop_name ''!color'' (annotations tx)
      in tx\<lparr>annotations := (if label tx \<notin> special then add_new ''!color'' black anns else anns)\<rparr>)"

text \<open>
  \<^verbatim>\<open>get_taxon(label)\<close>: the position of the first taxon of the namespace with that
  label, \<open>None\<close> when there is none. Labels are compared as they are.
\<close>

fun get_taxon :: "taxon list \<Rightarrow> string \<Rightarrow> nat option" where
  "get_taxon [] l = None"
| "get_taxon (tx # txs) l =
     (if label tx = l then Some 0 else map_option Suc (get_taxon txs l))"

definition add_color :: "aval \<Rightarrow> taxon \<Rightarrow> taxon" where
  "add_color c tx = tx\<lparr>annotations := add_new ''!color'' c (annotations tx)\<rparr>"

text \<open>
  Lines 61 to 64, from position \<open>center_ind\<close> on: the colour is read before the
  taxon is used, and a center that is no taxon of the namespace makes
  \<^verbatim>\<open>taxon.annotations\<close> fail on \<^verbatim>\<open>None\<close>.
\<close>

fun color_centers :: "aval list \<Rightarrow> nat \<Rightarrow> string list \<Rightarrow> taxon list \<Rightarrow> py_error + taxon list" where
  "color_centers colors center_ind [] ns = Inr ns"
| "color_centers colors center_ind (center # rest) ns =
     (if length colors \<le> center_ind then Inl IndexError
      else (case get_taxon ns center of
              None \<Rightarrow> Inl AttributeError
            | Some k \<Rightarrow>
                color_centers colors (Suc center_ind) rest
                  (ns[k := add_color (colors ! center_ind) (ns ! k)])))"

text \<open>Lines 67 to 70.\<close>

fun color_priors :: "aval option \<Rightarrow> string list \<Rightarrow> taxon list \<Rightarrow> py_error + taxon list" where
  "color_priors prior_col [] ns = Inr ns"
| "color_priors prior_col (prior_center # rest) ns =
     (case get_taxon ns prior_center of
        None \<Rightarrow> Inl AttributeError
      | Some k \<Rightarrow>
          (case prior_col of
             None \<Rightarrow> Inl NameError
           | Some pc \<Rightarrow> color_priors prior_col rest (ns[k := add_color pc (ns ! k)])))"

text \<open>
  The whole of \<^verbatim>\<open>color_by_clusters\<close>. Its first step,
  \<^verbatim>\<open>annotate_with_closest_centers\<close> of \<^verbatim>\<open>parnaslib.medoids\<close>, is a parameter: it
  leaves the \<^verbatim>\<open>center\<close> annotations on the nodes of the tree.
\<close>

definition color_by_clusters ::
  "(dtree \<Rightarrow> string list \<Rightarrow> string list option \<Rightarrow> real option \<Rightarrow> dtree)
     \<Rightarrow> dtree \<Rightarrow> string list \<Rightarrow> string list option \<Rightarrow> real option \<Rightarrow> py_error + dtree" where
  "color_by_clusters annotate_with_closest_centers tree centers prior_centers radius =
     (let tree1 = annotate_with_closest_centers tree centers prior_centers radius;
          prior_col = prior_color centers prior_centers;
          colors = hex_colors centers prior_centers
      in case color_edges prior_col colors (node_annotations tree1) (edges tree1) of
           Inl err \<Rightarrow> Inl err
         | Inr store \<Rightarrow>
             (let ns1 = map (color_regular (special_taxa centers prior_centers))
                            (taxon_namespace tree1)
              in case color_centers colors 0 centers ns1 of
                   Inl err \<Rightarrow> Inl err
                 | Inr ns2 \<Rightarrow>
                     (case (if truthy prior_centers
                            then color_priors prior_col (prior_list prior_centers) ns2
                            else Inr ns2) of
                        Inl err \<Rightarrow> Inl err
                      | Inr ns3 \<Rightarrow>
                          Inr (tree1\<lparr>node_annotations := store, taxon_namespace := ns3\<rparr>))))"

subsection \<open>Observing the colouring\<close>

text \<open>All values an annotation set holds under a name, in order.\<close>

definition values_of :: "annotation_set \<Rightarrow> string \<Rightarrow> aval list" where
  "values_of anns name = map snd (filter (\<lambda>a. fst a = name) anns)"

text \<open>
  The range condition on a \<^verbatim>\<open>center\<close> annotation: a negative value needs prior
  centers, and a value from 0 on is a position in \<open>centers\<close>.
\<close>

definition center_in_range :: "string list \<Rightarrow> string list option \<Rightarrow> aval \<Rightarrow> bool" where
  "center_in_range centers prior_centers v =
     (case v of
        IntV c \<Rightarrow> (if c < 0 then truthy prior_centers else c < int (length centers))
      | _ \<Rightarrow> True)"

definition centers_in_range :: "dtree \<Rightarrow> string list \<Rightarrow> string list option \<Rightarrow> bool" where
  "centers_in_range t centers prior_centers =
     list_all (\<lambda>e. case head_node e of
                     None \<Rightarrow> True
                   | Some h \<Rightarrow> center_in_range centers prior_centers
                                (get_value (node_annotations t h) ''center''))
              (edges t)"

text \<open>
  An annotation step for trees that carry their \<^verbatim>\<open>center\<close> annotations already:
  it leaves the tree as it is.
\<close>

definition already_annotated ::
  "dtree \<Rightarrow> string list \<Rightarrow> string list option \<Rightarrow> real option \<Rightarrow> dtree" where
  "already_annotated t centers prior_centers radius = t"

text \<open>
  A small annotated tree: the root 0 with the leaves 1 (taxon a) and 2 (taxon
  b); the root and leaf 1 are closest to center 0, leaf 2 to a prior center.
\<close>

definition cherry :: dtree where
  "cherry =
     \<lparr>edges = [\<lparr>head_node = Some 0, tail_node = None\<rparr>,
               \<lparr>head_node = Some 1, tail_node = Some 0\<rparr>,
               \<lparr>head_node = Some 2, tail_node = Some 0\<rparr>],
      node_annotations =
        (\<lambda>k. if k = 0 then [(''center'', IntV 0)]
             else if k = 1 then [(''!color'', StrV ''#ff0000''), (''center'', IntV 0)]
             else if k = 2 then [(''center'', IntV (- 1))]
             else []),
      taxon_namespace = [\<lparr>label = ''a'', annotations = [(''!color'', StrV ''#ff0000'')]\<rparr>,
                         \<lparr>label = ''b'', annotations = []\<rparr>]\<rparr>"

text \<open>The same tree with both leaves closest to a prior center, and with center 1.\<close>

definition cherry_prior :: dtree where
  "cherry_prior =
     cherry\<lparr>node_annotations := (\<lambda>k. [(''center'', IntV (- 1))])\<rparr>"

definition cherry_far :: dtree where
  "cherry_far =
     cherry\<lparr>node_annotations := (\<lambda>k. [(''center'', IntV 1)])\<rparr>"

text \<open>The taxon namespace of the tree that the colouring returns.\<close>

definition result_taxa :: "py_error + dtree \<Rightarrow> py_error + taxon list" where
  "result_taxa r = (case r of Inl err \<Rightarrow> Inl err | Inr t \<Rightarrow> Inr (taxon_namespace t))"

text \<open>
  The range condition on the edges that the loop colours: an edge whose head and
  tail carry the same \<^verbatim>\<open>center\<close> has that value in range.
\<close>

definition colored_in_range :: "dtree \<Rightarrow> string list \<Rightarrow> string list option \<Rightarrow> bool" where
  "colored_in_range t centers prior_centers =
     list_all (\<lambda>e. case head_node e of
                     None \<Rightarrow> True
                   | Some h \<Rightarrow>
                       (if same_center (node_annotations t) e
                        then center_in_range centers prior_centers
                               (get_value (node_annotations t h) ''center'')
                        else True))
              (edges t)"

text \<open>
  The values \<^verbatim>\<open>annotate_with_closest_centers\<close> leaves under \<^verbatim>\<open>center\<close>: an integer,
  or \<^verbatim>\<open>None\<close> on a node that has no annotation.
\<close>

definition int_or_none :: "aval \<Rightarrow> bool" where
  "int_or_none v = (case v of IntV c \<Rightarrow> True | NoneV \<Rightarrow> True | _ \<Rightarrow> False)"

definition int_centers :: "dtree \<Rightarrow> bool" where
  "int_centers t =
     list_all (\<lambda>e. case head_node e of
                     None \<Rightarrow> True
                   | Some h \<Rightarrow> int_or_none (get_value (node_annotations t h) ''center''))
              (edges t)"

subsection \<open>The trees of the test suite\<close>

definition tree_one :: tree where
  "tree_one =
     Node (Node (Node (Leaf ''a'') 2 (Leaf ''b'') 1) 2 (Leaf ''e'') 1) 1
          (Node (Leaf ''c'') 1 (Leaf ''d'') 2) 1"

definition tree_two :: tree where
  "tree_two =
     Node (Node (Leaf ''a'') 1 (Node (Leaf ''b'') (5/2) (Leaf ''c'') (5/2)) 1) 3
          (Node (Leaf ''d'') (1/2) (Node (Leaf ''e'') (5/2) (Leaf ''f'') 3) 1) 2"

definition tree_radius :: tree where
  "tree_radius =
     Node (Node (Leaf ''a'') 1 (Node (Leaf ''b'') (5/2) (Leaf ''c'') (5/2)) 1) 3
          (Node (Leaf ''d'') (1/2) (Node (Leaf ''e'') (5/2) (Leaf ''f'') (7/2)) 1) 2"

section \<open>Order and minimum of extended distances\<close>

lemma ele_refl: "ele x x"
  by (cases x) simp_all

lemma ele_trans: "ele x y \<Longrightarrow> ele y z \<Longrightarrow> ele x z"
  by (cases x; cases y; cases z) simp_all

lemma ele_antisym: "ele x y \<Longrightarrow> ele y x \<Longrightarrow> x = y"
  by (cases x; cases y) simp_all

lemma ele_total: "ele x y \<or> ele y x"
  by (cases x; cases y) auto

lemma emin_le1: "ele (emin x y) x"
  using ele_total [of x y] by (auto simp: ele_refl)

lemma emin_le2: "ele (emin x y) y"
  by (simp add: ele_refl)

lemma emin_greatest: "ele m x \<Longrightarrow> ele m y \<Longrightarrow> ele m (emin x y)"
  by simp

lemma emin_list_le: "x \<in> set xs \<Longrightarrow> ele (emin_list xs) x"
proof (induction xs)
  case Nil
  then show ?case by simp
next
  case (Cons y ys)
  show ?case
  proof (cases "x = y")
    case True
    then show ?thesis using emin_le1 [of y "emin_list ys"] by simp
  next
    case False
    with Cons have "ele (emin_list ys) x" by simp
    then show ?thesis
      using ele_trans [OF emin_le2 [of y "emin_list ys"]] by simp
  qed
qed

lemma emin_list_greatest: "(\<And>x. x \<in> set xs \<Longrightarrow> ele m x) \<Longrightarrow> ele m (emin_list xs)"
  by (induction xs) simp_all

lemma emin_list_in: "xs \<noteq> [] \<Longrightarrow> emin_list xs \<in> set xs"
proof (induction xs)
  case Nil
  then show ?case by simp
next
  case (Cons y ys)
  show ?case
  proof (cases "ys = []")
    case True
    then show ?thesis by simp
  next
    case False
    with Cons show ?thesis by simp
  qed
qed

lemma emin_list_subset: "set A \<subseteq> set B \<Longrightarrow> ele (emin_list B) (emin_list A)"
  by (rule emin_list_greatest) (auto intro: emin_list_le)

lemma nearest_subset: "set S \<subseteq> set S' \<Longrightarrow> ele (nearest t S' l) (nearest t S l)"
  unfolding nearest_def by (rule emin_list_subset) auto

lemma emin_mono: "ele a a' \<Longrightarrow> ele b b' \<Longrightarrow> ele (emin a b) (emin a' b')"
  by (rule emin_greatest) (blast intro: ele_trans emin_le1 emin_le2)+

lemma coverage_mono:
  "radius_ok radius \<Longrightarrow> ele x y \<Longrightarrow> ele (coverage x radius) (coverage y radius)"
  by (cases radius; cases x; cases y) (auto simp: radius_ok_def)

lemma eadd_mono: "ele a a' \<Longrightarrow> ele b b' \<Longrightarrow> ele (eadd a b) (eadd a' b')"
  by (cases a; cases a'; cases b; cases b') simp_all

lemma esum_mono:
  "(\<And>l. l \<in> set ls \<Longrightarrow> ele (f l) (g l)) \<Longrightarrow> ele (esum (map f ls)) (esum (map g ls))"
  by (induction ls) (simp_all add: eadd_mono ele_refl del: ele.simps)

lemma cost_subset:
  assumes "radius_ok radius" and "set S \<subseteq> set S'"
  shows "ele (cost t radius p e f S') (cost t radius p e f S)"
  unfolding cost_def
  by (rule esum_mono, rule coverage_mono [OF assms(1)], rule emin_mono [OF ele_refl],
      rule nearest_subset [OF assms(2)])

lemma combos_length: "S \<in> set (combos n xs) \<Longrightarrow> length S = n"
  by (induction n xs arbitrary: S rule: combos.induct) auto

lemma combos_subset: "S \<in> set (combos n xs) \<Longrightarrow> set S \<subseteq> set xs"
  by (induction n xs arbitrary: S rule: combos.induct) (simp, simp, fastforce)

lemma combos_nonempty: "n \<le> length xs \<Longrightarrow> combos n xs \<noteq> []"
  by (induction n xs rule: combos.induct) auto

lemma combos_bound: "S \<in> set (combos n xs) \<Longrightarrow> n \<le> length xs"
  by (induction n xs arbitrary: S rule: combos.induct) (auto dest: Suc_leD)

lemma combos_extend:
  "S \<in> set (combos n xs) \<Longrightarrow> n \<le> n' \<Longrightarrow> n' \<le> length xs
     \<Longrightarrow> \<exists>S' \<in> set (combos n' xs). set S \<subseteq> set S'"
proof (induction xs arbitrary: n n' S)
  case Nil
  then show ?case by simp
next
  case (Cons x xs)
  show ?case
  proof (cases n')
    case 0
    with Cons.prems show ?thesis by simp
  next
    case (Suc m')
    show ?thesis
    proof (cases n)
      case 0
      from combos_nonempty [OF Cons.prems(3)] obtain S' where "S' \<in> set (combos n' (x # xs))"
        by (cases "combos n' (x # xs)") auto
      moreover from 0 Cons.prems(1) have "S = []" by simp
      ultimately show ?thesis by auto
    next
      case n: (Suc m)
      from Cons.prems(1) n
      consider T where "S = x # T" "T \<in> set (combos m xs)" | "S \<in> set (combos (Suc m) xs)"
        by auto
      then show ?thesis
      proof cases
        case 1
        from Cons.prems n Suc have "m \<le> m'" "m' \<le> length xs" by simp_all
        from Cons.IH [OF 1(2) this] obtain T' where "T' \<in> set (combos m' xs)" "set T \<subseteq> set T'"
          by blast
        with 1(1) Suc show ?thesis
          by (intro bexI [of _ "x # T'"]) auto
      next
        case 2
        show ?thesis
        proof (cases "Suc m' \<le> length xs")
          case True
          from Cons.prems n Suc have "Suc m \<le> Suc m'" by simp
          from Cons.IH [OF 2 this True] Suc show ?thesis by auto
        next
          case False
          with Cons.prems(3) Suc have m': "m' = length xs" by simp
          from combos_bound [OF 2] m' have "Suc m \<le> m'" "m' \<le> length xs" by simp_all
          from Cons.IH [OF 2 this] obtain T' where "T' \<in> set (combos m' xs)" "set S \<subseteq> set T'"
            by blast
          with Suc show ?thesis
            by (intro bexI [of _ "x # T'"]) auto
        qed
      qed
    qed
  qed
qed

lemma opt_cost_attained:
  assumes "n \<le> length (selectable t e f)"
  shows "\<exists>S \<in> set (candidates t n e f). cost t radius p e f S = opt_cost t n radius p e f"
proof -
  let ?cs = "map (cost t radius p e f) (candidates t n e f)"
  from assms have "?cs \<noteq> []"
    by (simp add: candidates_def combos_nonempty)
  from emin_list_in [OF this] show ?thesis
    unfolding opt_cost_def by auto
qed

lemma opt_cost_le:
  "S \<in> set (candidates t n e f) \<Longrightarrow> ele (opt_cost t n radius p e f) (cost t radius p e f S)"
  unfolding opt_cost_def by (rule emin_list_le) simp

lemma opt_cost_mono:
  assumes "radius_ok radius" and "n \<le> n'" and "n' \<le> length (selectable t e f)"
  shows "ele (opt_cost t n' radius p e f) (opt_cost t n radius p e f)"
proof -
  from assms have "n \<le> length (selectable t e f)" by simp
  from opt_cost_attained [OF this] obtain S
    where S: "S \<in> set (candidates t n e f)" "cost t radius p e f S = opt_cost t n radius p e f"
    by blast
  from combos_extend [OF S(1) [unfolded candidates_def] assms(2,3)] obtain S'
    where S': "S' \<in> set (candidates t n' e f)" "set S \<subseteq> set S'"
    unfolding candidates_def by blast
  have a: "ele (opt_cost t n' radius p e f) (cost t radius p e f S')"
    by (rule opt_cost_le [OF S'(1)])
  have b: "ele (cost t radius p e f S') (cost t radius p e f S)"
    by (rule cost_subset [OF assms(1) S'(2)])
  from ele_trans [OF a b] S(2) show ?thesis by simp
qed

section \<open>The solver returns an optimal set\<close>

lemma valid_config_le:
  "valid_config t n' radius p e f \<Longrightarrow> n \<le> n' \<Longrightarrow> valid_config t n radius p e f"
  by (simp add: valid_config_def)

lemma optimal_sets_nonempty:
  assumes "n \<le> length (selectable t e f)"
  shows "optimal_sets t n radius p e f \<noteq> []"
proof -
  from opt_cost_attained [OF assms, of radius p] obtain S
    where "S \<in> set (candidates t n e f)" "cost t radius p e f S = opt_cost t n radius p e f"
    by blast
  then have "S \<in> set (optimal_sets t n radius p e f)"
    by (simp add: optimal_sets_def)
  then show ?thesis by auto
qed

lemma solve_returns:
  assumes "2 \<le> length (leaves t)" and "valid_config t n radius p e f"
  shows "\<exists>S. solve t n radius p e f = Inr (S, opt_cost t n radius p e f)
              \<and> S \<in> set (optimal_sets t n radius p e f)"
proof -
  from assms(2) have "n \<le> length (selectable t e f)"
    by (simp add: valid_config_def)
  from optimal_sets_nonempty [OF this, of radius p] obtain S rest
    where "optimal_sets t n radius p e f = S # rest"
    by (cases "optimal_sets t n radius p e f") auto
  with assms show ?thesis
    by (simp add: solve_def)
qed

lemma solve_InrD:
  assumes "solve t n radius p e f = Inr (S, c)"
  shows "2 \<le> length (leaves t) \<and> valid_config t n radius p e f
         \<and> c = opt_cost t n radius p e f \<and> S \<in> set (optimal_sets t n radius p e f)"
  using assms
  by (cases "optimal_sets t n radius p e f") (auto simp: solve_def split: if_splits)

lemma optimal_setsD:
  "S \<in> set (optimal_sets t n radius p e f)
     \<Longrightarrow> S \<in> set (candidates t n e f) \<and> cost t radius p e f S = opt_cost t n radius p e f"
  by (simp add: optimal_sets_def)

lemma depth_nonneg: "nonneg_edges t \<Longrightarrow> depth t x = Some d \<Longrightarrow> 0 \<le> d"
  by (induction t arbitrary: d) (auto split: if_splits option.splits)

lemma distance_nonneg: "nonneg_edges t \<Longrightarrow> distance t u v = Some d \<Longrightarrow> 0 \<le> d"
proof (induction t arbitrary: d)
  case (Leaf y)
  then show ?case by (auto split: if_splits)
next
  case (Node l el r er)
  from Node.prems(1) have e: "0 \<le> el" "0 \<le> er" and l: "nonneg_edges l" and r: "nonneg_edges r"
    by simp_all
  from Node.prems(2) Node.IH(1) [OF l] Node.IH(2) [OF r] e
    depth_nonneg [OF l] depth_nonneg [OF r]
  show ?case
    by (fastforce split: option.splits)
qed

lemma dist_ext_nonneg: "nonneg_edges t \<Longrightarrow> ele (Fin 0) (dist_ext t u v)"
  by (auto simp: dist_ext_def split: option.splits dest: distance_nonneg)

lemma nearest_nonneg: "nonneg_edges t \<Longrightarrow> ele (Fin 0) (nearest t S l)"
  unfolding nearest_def by (rule emin_list_greatest) (auto simp: dist_ext_nonneg)

lemma coverage_nonneg: "ele (Fin 0) x \<Longrightarrow> ele (Fin 0) (coverage x radius)"
  by (cases radius) simp_all

lemma esum_nonneg: "(\<And>x. x \<in> set xs \<Longrightarrow> ele (Fin 0) x) \<Longrightarrow> ele (Fin 0) (esum xs)"
proof (induction xs)
  case Nil
  then show ?case by simp
next
  case (Cons y ys)
  then have "ele (Fin 0) y" "ele (Fin 0) (esum ys)" by simp_all
  then show ?case by (cases y; cases "esum ys") simp_all
qed

lemma cost_nonneg:
  assumes "nonneg_edges t"
  shows "ele (Fin 0) (cost t radius p e f S)"
  unfolding cost_def baselineDistance_def
proof (rule esum_nonneg)
  fix x
  assume "x \<in> set (map (\<lambda>l. coverage (emin (nearest t p l) (nearest t S l)) radius) (counted t e f))"
  then obtain l where x: "x = coverage (emin (nearest t p l) (nearest t S l)) radius"
    by auto
  have "ele (Fin 0) (emin (nearest t p l) (nearest t S l))"
    by (rule emin_greatest) (rule nearest_nonneg [OF assms])+
  then show "ele (Fin 0) x"
    unfolding x by (rule coverage_nonneg)
qed

lemma opt_cost_zero:
  assumes "nonneg_edges t" and "S \<in> set (candidates t m e f)"
    and "cost t radius p e f S = Fin 0"
  shows "opt_cost t m radius p e f = Fin 0"
proof -
  from combos_bound [OF assms(2) [unfolded candidates_def]]
  have "m \<le> length (selectable t e f)" .
  from opt_cost_attained [OF this, of radius p] obtain S0
    where "cost t radius p e f S0 = opt_cost t m radius p e f" by blast
  with cost_nonneg [OF assms(1), of radius p e f S0]
  have lower: "ele (Fin 0) (opt_cost t m radius p e f)" by simp
  from opt_cost_le [OF assms(2), of radius p] assms(3)
  have upper: "ele (opt_cost t m radius p e f) (Fin 0)" by simp
  from ele_antisym [OF upper lower] show ?thesis .
qed

section \<open>The solver on the trees of the test suite\<close>

text \<open>
  C1. On the tree \<^verbatim>\<open>(((a:2,b:1):2,e:1):1,(c:1,d:2):1)\<close> with n = 1, no radius, no prior
  centers and no exclusions, the solver returns exactly one representative, the
  leaf \<open>e\<close>, with total cost 18; \<open>e\<close> is the only optimal set, so no tie-break is
  involved.
\<close>

theorem one_medoid:
  "solve tree_one 1 None [] [] [] = Inr ([''e''], Fin 18)
   \<and> optimal_sets tree_one 1 None [] [] [] = [[''e'']]"
  by code_simp

text \<open>
  C2. On the tree \<^verbatim>\<open>((a:1,(b:2.5,c:2.5):1):3,(d:0.5,(e:2.5,f:3.5):1):2)\<close> with n = 2 and
  radius 4.5 the solver returns the representatives a and d (the only optimal
  set) with cost 5. The leaves b and c are at distance exactly 4.5 from their
  nearest representative a and contribute 0, so a distance equal to the radius
  counts as covered; the per-leaf contributions, in the order a, b, c, d, e, f,
  are 0, 0, 0, 0, 0 and 5.
\<close>

theorem two_medoids_w_radius2:
  "solve tree_radius 2 (Some (9/2)) [] [] [] = Inr ([''a'', ''d''], Fin 5)
   \<and> optimal_sets tree_radius 2 (Some (9/2)) [] [] [] = [[''a'', ''d'']]
   \<and> nearest tree_radius [''a'', ''d''] ''b'' = Fin (9/2)
   \<and> nearest tree_radius [''a'', ''d''] ''c'' = Fin (9/2)
   \<and> coverage (Fin (9/2)) (Some (9/2)) = Fin 0
   \<and> nearest tree_radius [''a'', ''d''] ''f'' = Fin 5
   \<and> map (\<lambda>l. coverage (emin (baselineDistance tree_radius [] l)
                               (nearest tree_radius [''a'', ''d''] l)) (Some (9/2)))
          (counted tree_radius [] [])
       = [Fin 0, Fin 0, Fin 0, Fin 0, Fin 0, Fin 5]"
  by code_simp

text \<open>
  C3. On the tree \<^verbatim>\<open>((a:1,(b:2.5,c:2.5):1):3,(d:0.5,(e:2.5,f:3):1):2)\<close> with n = 2, no
  radius, no prior centers and no exclusions the solver returns the
  representative set {a, d}, the only optimal one, with total cost 17.5.
\<close>

theorem two_medoids:
  "solve tree_two 2 None [] [] [] = Inr ([''a'', ''d''], Fin (35/2))
   \<and> optimal_sets tree_two 2 None [] [] [] = [[''a'', ''d'']]"
  by code_simp

text \<open>
  C4. On the tree of C1 with prior center b and n = 1 the optimal sets are exactly
  {c} and {d}, both of total cost 10, the minimum. The solver succeeds (a tie is
  not an error) and what it returns is one of the two; which one is a tie-break
  of the implementation.
\<close>

theorem one_medoid_w_prior:
  "optimal_sets tree_one 1 None [''b''] [] [] = [[''c''], [''d'']]
   \<and> cost tree_one None [''b''] [] [] [''c''] = Fin 10
   \<and> cost tree_one None [''b''] [] [] [''d''] = Fin 10
   \<and> opt_cost tree_one 1 None [''b''] [] [] = Fin 10
   \<and> (\<exists>S. solve tree_one 1 None [''b''] [] [] = Inr (S, Fin 10)
          \<and> (S = [''c''] \<or> S = [''d'']))"
proof -
  have sets: "optimal_sets tree_one 1 None [''b''] [] [] = [[''c''], [''d'']]"
    by code_simp
  have cost_c: "cost tree_one None [''b''] [] [] [''c''] = Fin 10"
    by code_simp
  have cost_d: "cost tree_one None [''b''] [] [] [''d''] = Fin 10"
    by code_simp
  have best: "opt_cost tree_one 1 None [''b''] [] [] = Fin 10"
    by code_simp
  have returned: "solve tree_one 1 None [''b''] [] [] = Inr ([''c''], Fin 10)"
    by code_simp
  from returned have "\<exists>S. solve tree_one 1 None [''b''] [] [] = Inr (S, Fin 10)
          \<and> (S = [''c''] \<or> S = [''d''])"
    by blast
  with sets cost_c cost_d best show ?thesis
    by blast
qed

section \<open>The optimal cost as a function of the number of representatives\<close>

text \<open>
  C5. For a fixed tree, radius, prior centers and classification the optimal cost
  does not increase with n: whenever the configuration is valid for n' (so n' is
  at most the number of selectable leaves) and n \<le> n', the solver returns for
  both counts, and the cost returned for n' is at most the cost returned for n.
\<close>

theorem cost_nonincreasing:
  assumes "2 \<le> length (leaves t)" and "valid_config t n' radius p e f" and "n \<le> n'"
  shows "\<exists>S c S' c'. solve t n radius p e f = Inr (S, c)
            \<and> solve t n' radius p e f = Inr (S', c') \<and> ele c' c"
proof -
  from assms(2) have r: "radius_ok radius" and b: "n' \<le> length (selectable t e f)"
    by (simp_all add: valid_config_def)
  from solve_returns [OF assms(1) valid_config_le [OF assms(2,3)]] obtain S
    where S: "solve t n radius p e f = Inr (S, opt_cost t n radius p e f)" by blast
  from solve_returns [OF assms(1,2)] obtain S'
    where S': "solve t n' radius p e f = Inr (S', opt_cost t n' radius p e f)" by blast
  from opt_cost_mono [OF r assms(3) b] S S' show ?thesis by blast
qed

theorem cost_nonincreasing_witness:
  "\<exists>S c S' c'. solve tree_two 1 (Some 4) [] [] [] = Inr (S, c)
            \<and> solve tree_two 3 (Some 4) [] [] [] = Inr (S', c') \<and> ele c' c"
proof -
  have h1: "2 \<le> length (leaves tree_two)" by code_simp
  have h2: "valid_config tree_two 3 (Some 4) [] [] []" by code_simp
  have h3: "(1::nat) \<le> 3" by simp
  show ?thesis by (rule cost_nonincreasing [OF h1 h2 h3])
qed

section \<open>The cover mode\<close>

lemma cover_loop_cong:
  "(\<And>n. n \<in> set ns \<Longrightarrow> f n = g n) \<Longrightarrow> cover_loop f ns st = cover_loop g ns st"
  by (induction ns arbitrary: st) (auto simp: Let_def split: sum.splits)

lemma cover_loop_exhaust:
  assumes "ns \<noteq> []"
    and "\<And>n. n \<in> set ns \<Longrightarrow> \<exists>reps v. f n = Inr (reps, v) \<and> v \<noteq> Fin 0"
  shows "\<exists>reps v. f (last ns) = Inr (reps, v) \<and> v \<noteq> Fin 0
           \<and> cover_loop f ns st = Inr (st\<lparr>representatives := Some reps, obj_value := Some v\<rparr>)"
  using assms
proof (induction ns arbitrary: st)
  case Nil
  then show ?case by simp
next
  case (Cons n ns)
  from Cons.prems(2) [of n] obtain reps v where n: "f n = Inr (reps, v)" "v \<noteq> Fin 0"
    by auto
  show ?case
  proof (cases "ns = []")
    case True
    with n show ?thesis by simp
  next
    case False
    from Cons.IH [OF False, of "st\<lparr>representatives := Some reps, obj_value := Some v\<rparr>"] Cons.prems(2)
    obtain reps' v' where "f (last ns) = Inr (reps', v')" "v' \<noteq> Fin 0"
      "cover_loop f ns (st\<lparr>representatives := Some reps, obj_value := Some v\<rparr>)
         = Inr (st\<lparr>representatives := Some reps', obj_value := Some v'\<rparr>)"
      by auto
    with n False show ?thesis by simp
  qed
qed

lemma cover_loop_upt:
  assumes "cover_loop f [a..<b] st0 = Inr st"
    and "opt_n st0 = Some (- 1)" and "opt_n st \<noteq> Some (- 1)"
  shows "\<exists>n reps. a \<le> n \<and> n < b \<and> opt_n st = Some (int n) \<and> f n = Inr (reps, Fin 0)
           \<and> representatives st = Some reps \<and> obj_value st = Some (Fin 0)
           \<and> (\<forall>m. a \<le> m \<and> m < n \<longrightarrow> (\<exists>reps v. f m = Inr (reps, v) \<and> v \<noteq> Fin 0))"
  using assms
proof (induction "b - a" arbitrary: a st0)
  case 0
  then show ?case by simp
next
  case (Suc k)
  then have ab: "a < b" and upt: "[a..<b] = a # [Suc a..<b]"
    by (simp_all add: upt_conv_Cons)
  from Suc.prems(1) upt obtain reps v where fa: "f a = Inr (reps, v)"
    by (cases "f a") auto
  show ?case
  proof (cases "v = Fin 0")
    case True
    with Suc.prems(1) upt fa
    have "st = st0\<lparr>representatives := Some reps, obj_value := Some v, opt_n := Some (int a)\<rparr>"
      by simp
    with True fa ab show ?thesis
      by (intro exI [of _ a] exI [of _ reps]) auto
  next
    case False
    let ?st1 = "st0\<lparr>representatives := Some reps, obj_value := Some v\<rparr>"
    from False Suc.prems(1) upt fa have run: "cover_loop f [Suc a..<b] ?st1 = Inr st"
      by simp
    from Suc.hyps(2) have k: "k = b - Suc a" by simp
    from Suc.prems(2) have o: "opt_n ?st1 = Some (- 1)" by simp
    from Suc.hyps(1) [OF k run o Suc.prems(3)] obtain n reps'
      where n: "Suc a \<le> n" "n < b" "opt_n st = Some (int n)" "f n = Inr (reps', Fin 0)"
        "representatives st = Some reps'" "obj_value st = Some (Fin 0)"
        "\<forall>m. Suc a \<le> m \<and> m < n \<longrightarrow> (\<exists>reps v. f m = Inr (reps, v) \<and> v \<noteq> Fin 0)"
      by blast
    have "\<forall>m. a \<le> m \<and> m < n \<longrightarrow> (\<exists>reps v. f m = Inr (reps, v) \<and> v \<noteq> Fin 0)"
    proof (intro allI impI)
      fix m
      assume m: "a \<le> m \<and> m < n"
      show "\<exists>reps v. f m = Inr (reps, v) \<and> v \<noteq> Fin 0"
      proof (cases "m = a")
        case True
        with fa False show ?thesis by simp
      next
        case False
        with m have "Suc a \<le> m \<and> m < n" by simp
        with n(7) show ?thesis by blast
      qed
    qed
    with n show ?thesis
      by (intro exI [of _ n] exI [of _ reps']) simp
  qed
qed

lemma cover_loop_stop:
  assumes "a \<le> n" and "n < b" and "f n = Inr (reps, Fin 0)"
    and "\<And>m. a \<le> m \<Longrightarrow> m < n \<Longrightarrow> \<exists>reps v. f m = Inr (reps, v) \<and> v \<noteq> Fin 0"
  shows "cover_loop f [a..<b] st0
           = Inr (st0\<lparr>representatives := Some reps, obj_value := Some (Fin 0),
                       opt_n := Some (int n)\<rparr>)"
  using assms(1,4)
proof (induction "n - a" arbitrary: a st0)
  case 0
  then have a: "a = n" by simp
  with assms(2) have "[a..<b] = n # [Suc n..<b]" by (simp add: upt_conv_Cons)
  with assms(3) show ?case by simp
next
  case (Suc k)
  then have an: "a < n" by simp
  with assms(2) have upt: "[a..<b] = a # [Suc a..<b]" by (simp add: upt_conv_Cons)
  from Suc.prems(2) [of a] an obtain r v where fa: "f a = Inr (r, v)" "v \<noteq> Fin 0"
    by auto
  from Suc.hyps(2) have k: "k = n - Suc a" by simp
  from an have le: "Suc a \<le> n" by simp
  have rest: "\<exists>reps v. f m = Inr (reps, v) \<and> v \<noteq> Fin 0" if "Suc a \<le> m" "m < n" for m
    using Suc.prems(2) [of m] that by simp
  from Suc.hyps(1) [OF k le rest, of "st0\<lparr>representatives := Some r, obj_value := Some v\<rparr>"]
    upt fa
  show ?case by simp
qed

lemma cover_loop_error:
  assumes "a \<le> n" and "n < b" and "f n = Inl err"
    and "\<And>m. a \<le> m \<Longrightarrow> m < n \<Longrightarrow> \<exists>reps v. f m = Inr (reps, v) \<and> v \<noteq> Fin 0"
  shows "cover_loop f [a..<b] st0 = Inl err"
  using assms(1,4)
proof (induction "n - a" arbitrary: a st0)
  case 0
  then have a: "a = n" by simp
  with assms(2) have "[a..<b] = n # [Suc n..<b]" by (simp add: upt_conv_Cons)
  with assms(3) show ?case by simp
next
  case (Suc k)
  then have an: "a < n" by simp
  with assms(2) have upt: "[a..<b] = a # [Suc a..<b]" by (simp add: upt_conv_Cons)
  from Suc.prems(2) [of a] an obtain r v where fa: "f a = Inr (r, v)" "v \<noteq> Fin 0"
    by auto
  from Suc.hyps(2) have k: "k = n - Suc a" by simp
  from an have le: "Suc a \<le> n" by simp
  have rest: "\<exists>reps v. f m = Inr (reps, v) \<and> v \<noteq> Fin 0" if "Suc a \<le> m" "m < n" for m
    using Suc.prems(2) [of m] that by simp
  from Suc.hyps(1) [OF k le rest, of "st0\<lparr>representatives := Some r, obj_value := Some v\<rparr>"]
    upt fa
  show ?case by simp
qed

lemma cover_loop_InlD:
  assumes "cover_loop f [a..<b] st0 = Inl err"
  shows "\<exists>n. a \<le> n \<and> n < b \<and> f n = Inl err
           \<and> (\<forall>m. a \<le> m \<and> m < n \<longrightarrow> (\<exists>reps v. f m = Inr (reps, v) \<and> v \<noteq> Fin 0))"
  using assms
proof (induction "b - a" arbitrary: a st0)
  case 0
  then show ?case by simp
next
  case (Suc k)
  then have ab: "a < b" and upt: "[a..<b] = a # [Suc a..<b]"
    by (simp_all add: upt_conv_Cons)
  show ?case
  proof (cases "f a")
    case (Inl e)
    with Suc.prems upt have "e = err" by simp
    with Inl ab show ?thesis
      by (intro exI [of _ a]) auto
  next
    case (Inr rv)
    then obtain r v where fa: "f a = Inr (r, v)" by (cases rv) simp
    with Suc.prems upt have nz: "v \<noteq> Fin 0"
      by (auto simp: Let_def split: if_splits)
    let ?st1 = "st0\<lparr>representatives := Some r, obj_value := Some v\<rparr>"
    from nz Suc.prems upt fa have run: "cover_loop f [Suc a..<b] ?st1 = Inl err" by simp
    from Suc.hyps(2) have k: "k = b - Suc a" by simp
    from Suc.hyps(1) [OF k run] obtain n
      where n: "Suc a \<le> n" "n < b" "f n = Inl err"
        "\<forall>m. Suc a \<le> m \<and> m < n \<longrightarrow> (\<exists>reps v. f m = Inr (reps, v) \<and> v \<noteq> Fin 0)"
      by blast
    have "\<forall>m. a \<le> m \<and> m < n \<longrightarrow> (\<exists>reps v. f m = Inr (reps, v) \<and> v \<noteq> Fin 0)"
    proof (intro allI impI)
      fix m
      assume m: "a \<le> m \<and> m < n"
      show "\<exists>reps v. f m = Inr (reps, v) \<and> v \<noteq> Fin 0"
      proof (cases "m = a")
        case True
        with fa nz show ?thesis by simp
      next
        case False
        with m have "Suc a \<le> m \<and> m < n" by simp
        with n(4) show ?thesis by blast
      qed
    qed
    with n show ?thesis
      by (intro exI [of _ n]) simp
  qed
qed

lemma cover_loop_exhaustD:
  assumes "cover_loop f [a..<b] st0 = Inr st" and "opt_n st = Some (- 1)"
  shows "\<forall>m. a \<le> m \<and> m < b \<longrightarrow> (\<exists>reps v. f m = Inr (reps, v) \<and> v \<noteq> Fin 0)"
  using assms(1)
proof (induction "b - a" arbitrary: a st0)
  case 0
  then show ?case by auto
next
  case (Suc k)
  then have ab: "a < b" and upt: "[a..<b] = a # [Suc a..<b]"
    by (simp_all add: upt_conv_Cons)
  from Suc.prems upt obtain r v where fa: "f a = Inr (r, v)"
    by (cases "f a") auto
  have nz: "v \<noteq> Fin 0"
  proof
    assume "v = Fin 0"
    with Suc.prems upt fa
    have "st = st0\<lparr>representatives := Some r, obj_value := Some v, opt_n := Some (int a)\<rparr>"
      by simp
    with assms(2) show False by simp
  qed
  let ?st1 = "st0\<lparr>representatives := Some r, obj_value := Some v\<rparr>"
  from nz Suc.prems upt fa have run: "cover_loop f [Suc a..<b] ?st1 = Inr st" by simp
  from Suc.hyps(2) have k: "k = b - Suc a" by simp
  from Suc.hyps(1) [OF k run]
  have rest: "\<forall>m. Suc a \<le> m \<and> m < b \<longrightarrow> (\<exists>reps v. f m = Inr (reps, v) \<and> v \<noteq> Fin 0)" .
  show ?case
  proof (intro allI impI)
    fix m
    assume m: "a \<le> m \<and> m < b"
    show "\<exists>reps v. f m = Inr (reps, v) \<and> v \<noteq> Fin 0"
    proof (cases "m = a")
      case True
      with fa nz show ?thesis by simp
    next
      case False
      with m have "Suc a \<le> m \<and> m < b" by simp
      with rest show ?thesis by blast
    qed
  qed
qed

lemma selectable_le_leaves: "length (selectable t e f) \<le> length (leaves t)"
  by (simp add: selectable_def)

text \<open>
  C8, as the code has it. In cover mode the loop ends without an error and with
  \<open>opt_n\<close> still -1 exactly when every call of the solver for n from 1 to the
  number of leaves returns a cost and none of these costs is 0; the program then
  goes on to report the representatives of the last iteration, n = number of
  leaves. An error of the solver is the error of the loop: the loop raises
  \<open>err\<close> exactly when a call raises \<open>err\<close> after calls that all returned a cost
  other than 0. The loop never calls the solver with n = 0: what the solver would
  return there has no effect on the outcome. The tree has at least one leaf, so
  the loop has a last iteration.
\<close>

theorem cover_exhausted:
  assumes "1 \<le> num_leaves"
  shows "((\<forall>n. 1 \<le> n \<and> n \<le> num_leaves \<longrightarrow> (\<exists>reps v. solver n = Inr (reps, v) \<and> v \<noteq> Fin 0))
            = (\<exists>st. cover_search solver num_leaves = Inr st \<and> opt_n st = Some (- 1)))
         \<and> (\<forall>st. cover_search solver num_leaves = Inr st \<and> opt_n st = Some (- 1) \<longrightarrow>
               (\<exists>reps v. solver num_leaves = Inr (reps, v)
                  \<and> st = \<lparr>opt_n = Some (- 1), representatives = Some reps, obj_value = Some v\<rparr>
                  \<and> report st
                      = Inr (if reps = []
                             then [Info ''The diversity on the tree is already fully covered by the prior centers - no new representatives needed.'']
                             else Info ''Chosen representatives:'' # map Print reps)))
         \<and> ((\<exists>n. 1 \<le> n \<and> n \<le> num_leaves \<and> solver n = Inl err
                 \<and> (\<forall>m. 1 \<le> m \<and> m < n \<longrightarrow> (\<exists>reps v. solver m = Inr (reps, v) \<and> v \<noteq> Fin 0)))
              = (cover_search solver num_leaves = Inl err))
         \<and> select_representatives True solver n num_leaves = cover_search solver num_leaves
         \<and> cover_search (solver(0 := x)) num_leaves = cover_search solver num_leaves"
proof -
  let ?ns = "[1..<num_leaves + 1]"
  let ?st0 = "\<lparr>opt_n = Some (- 1), representatives = None, obj_value = None\<rparr>"
  let ?all = "\<forall>n. 1 \<le> n \<and> n \<le> num_leaves \<longrightarrow> (\<exists>reps v. solver n = Inr (reps, v) \<and> v \<noteq> Fin 0)"
  have search: "cover_search solver num_leaves = cover_loop solver ?ns ?st0"
    by (simp only: cover_search_def)
  from assms have ne: "?ns \<noteq> []" and last: "last ?ns = num_leaves"
    by simp_all
  have forward: "\<exists>reps v. solver num_leaves = Inr (reps, v)
                   \<and> cover_loop solver ?ns ?st0
                       = Inr \<lparr>opt_n = Some (- 1), representatives = Some reps, obj_value = Some v\<rparr>"
    if all: ?all
  proof -
    have each: "\<exists>reps v. solver n = Inr (reps, v) \<and> v \<noteq> Fin 0" if "n \<in> set ?ns" for n
    proof -
      from that have "1 \<le> n \<and> n \<le> num_leaves" by auto
      with all show ?thesis by blast
    qed
    have "\<exists>reps v. solver (last ?ns) = Inr (reps, v) \<and> v \<noteq> Fin 0
             \<and> cover_loop solver ?ns ?st0
                 = Inr (?st0\<lparr>representatives := Some reps, obj_value := Some v\<rparr>)"
      by (rule cover_loop_exhaust [OF ne]) (rule each)
    then obtain reps v
      where r: "solver (last ?ns) = Inr (reps, v)"
        "cover_loop solver ?ns ?st0
           = Inr (?st0\<lparr>representatives := Some reps, obj_value := Some v\<rparr>)"
      by blast
    from r(1) have "solver num_leaves = Inr (reps, v)" unfolding last .
    moreover from r(2) have "cover_loop solver ?ns ?st0
        = Inr \<lparr>opt_n = Some (- 1), representatives = Some reps, obj_value = Some v\<rparr>"
      by simp
    ultimately show ?thesis by blast
  qed
  have backward: ?all if run: "cover_loop solver ?ns ?st0 = Inr st" and o: "opt_n st = Some (- 1)"
    for st
  proof -
    from cover_loop_exhaustD [OF run o]
    have "\<forall>m. 1 \<le> m \<and> m < num_leaves + 1 \<longrightarrow> (\<exists>reps v. solver m = Inr (reps, v) \<and> v \<noteq> Fin 0)" .
    then show ?thesis by (simp add: less_Suc_eq_le)
  qed
  have A: "?all = (\<exists>st. cover_search solver num_leaves = Inr st \<and> opt_n st = Some (- 1))"
  proof
    assume ?all
    from forward [OF this] show "\<exists>st. cover_search solver num_leaves = Inr st \<and> opt_n st = Some (- 1)"
      unfolding search by auto
  next
    assume "\<exists>st. cover_search solver num_leaves = Inr st \<and> opt_n st = Some (- 1)"
    then obtain st where "cover_loop solver ?ns ?st0 = Inr st" "opt_n st = Some (- 1)"
      unfolding search by blast
    then show ?all by (rule backward)
  qed
  have B: "\<forall>st. cover_search solver num_leaves = Inr st \<and> opt_n st = Some (- 1) \<longrightarrow>
               (\<exists>reps v. solver num_leaves = Inr (reps, v)
                  \<and> st = \<lparr>opt_n = Some (- 1), representatives = Some reps, obj_value = Some v\<rparr>
                  \<and> report st
                      = Inr (if reps = []
                             then [Info ''The diversity on the tree is already fully covered by the prior centers - no new representatives needed.'']
                             else Info ''Chosen representatives:'' # map Print reps))"
  proof (intro allI impI)
    fix st
    assume h: "cover_search solver num_leaves = Inr st \<and> opt_n st = Some (- 1)"
    then have run: "cover_loop solver ?ns ?st0 = Inr st" and o: "opt_n st = Some (- 1)"
      unfolding search by simp_all
    from forward [OF backward [OF run o]] obtain reps v
      where r: "solver num_leaves = Inr (reps, v)"
        "cover_loop solver ?ns ?st0
           = Inr \<lparr>opt_n = Some (- 1), representatives = Some reps, obj_value = Some v\<rparr>"
      by blast
    from r(2) run
    have st: "st = \<lparr>opt_n = Some (- 1), representatives = Some reps, obj_value = Some v\<rparr>"
      by simp
    have "report st
            = Inr (if reps = []
                   then [Info ''The diversity on the tree is already fully covered by the prior centers - no new representatives needed.'']
                   else Info ''Chosen representatives:'' # map Print reps)"
      unfolding st by (simp add: report_def)
    with r(1) st
    show "\<exists>reps v. solver num_leaves = Inr (reps, v)
            \<and> st = \<lparr>opt_n = Some (- 1), representatives = Some reps, obj_value = Some v\<rparr>
            \<and> report st
                = Inr (if reps = []
                       then [Info ''The diversity on the tree is already fully covered by the prior centers - no new representatives needed.'']
                       else Info ''Chosen representatives:'' # map Print reps)"
      by blast
  qed
  have C: "(\<exists>n. 1 \<le> n \<and> n \<le> num_leaves \<and> solver n = Inl err
                 \<and> (\<forall>m. 1 \<le> m \<and> m < n \<longrightarrow> (\<exists>reps v. solver m = Inr (reps, v) \<and> v \<noteq> Fin 0)))
              = (cover_search solver num_leaves = Inl err)"
  proof
    assume "\<exists>n. 1 \<le> n \<and> n \<le> num_leaves \<and> solver n = Inl err
                 \<and> (\<forall>m. 1 \<le> m \<and> m < n \<longrightarrow> (\<exists>reps v. solver m = Inr (reps, v) \<and> v \<noteq> Fin 0))"
    then obtain n where n: "1 \<le> n" "n < num_leaves + 1" "solver n = Inl err"
      and before: "\<And>m. 1 \<le> m \<Longrightarrow> m < n \<Longrightarrow> \<exists>reps v. solver m = Inr (reps, v) \<and> v \<noteq> Fin 0"
      by auto
    have "cover_loop solver ?ns ?st0 = Inl err"
      by (rule cover_loop_error [where f = solver and n = n, OF n(1) n(2) n(3)]) (rule before)
    then show "cover_search solver num_leaves = Inl err"
      unfolding search .
  next
    assume "cover_search solver num_leaves = Inl err"
    then have "cover_loop solver ?ns ?st0 = Inl err" unfolding search .
    from cover_loop_InlD [OF this]
    show "\<exists>n. 1 \<le> n \<and> n \<le> num_leaves \<and> solver n = Inl err
                 \<and> (\<forall>m. 1 \<le> m \<and> m < n \<longrightarrow> (\<exists>reps v. solver m = Inr (reps, v) \<and> v \<noteq> Fin 0))"
      by (simp add: less_Suc_eq_le)
  qed
  have D: "select_representatives True solver n num_leaves = cover_search solver num_leaves"
    by (simp add: select_representatives_def)
  have "cover_loop (solver(0 := x)) ?ns ?st0 = cover_loop solver ?ns ?st0"
    by (rule cover_loop_cong) auto
  then have E: "cover_search (solver(0 := x)) num_leaves = cover_search solver num_leaves"
    by (simp only: cover_search_def)
  from A B C D E show ?thesis by blast
qed

theorem cover_exhausted_witness:
  "(1::nat) \<le> 5
   \<and> cover_search (find_n_medoids tree_one None [] [''a''] []) 5 = Inl InvalidConfiguration
   \<and> (\<exists>st. cover_search (\<lambda>n. if n \<le> 2 then Inr (take n [''a'', ''b''], Fin 3)
                                else Inr ([''a'', ''b''], PInf)) 3
               = (Inr st :: solve_error + cover_state)
            \<and> opt_n st = Some (- 1))"
proof -
  let ?f = "find_n_medoids tree_one None [] [''a''] []"
  let ?g = "(\<lambda>n. if n \<le> 2 then Inr (take n [''a'', ''b''], Fin 3) else Inr ([''a'', ''b''], PInf))
              :: nat \<Rightarrow> solve_error + string list \<times> ext"
  have h5: "(1::nat) \<le> 5" by simp
  have h3: "(1::nat) \<le> 3" by simp
  have r1: "?f 1 = Inr ([''e''], Fin 18)" by code_simp
  have r2: "?f 2 = Inr ([''b'', ''c''], Fin 10)" by code_simp
  have r3: "?f 3 = Inr ([''b'', ''e'', ''c''], Fin 6)" by code_simp
  have r4: "?f 4 = Inr ([''b'', ''e'', ''c'', ''d''], Fin 3)" by code_simp
  have r5: "?f 5 = Inl InvalidConfiguration" by code_simp
  have before: "\<forall>m. 1 \<le> m \<and> m < 5 \<longrightarrow> (\<exists>reps v. ?f m = Inr (reps, v) \<and> v \<noteq> Fin 0)"
  proof (intro allI impI)
    fix m :: nat
    assume "1 \<le> m \<and> m < 5"
    then have "m = 1 \<or> m = 2 \<or> m = 3 \<or> m = 4" by arith
    with r1 r2 r3 r4 show "\<exists>reps v. ?f m = Inr (reps, v) \<and> v \<noteq> Fin 0" by auto
  qed
  with r5 have raise: "\<exists>n. 1 \<le> n \<and> n \<le> 5 \<and> ?f n = Inl InvalidConfiguration
      \<and> (\<forall>m. 1 \<le> m \<and> m < n \<longrightarrow> (\<exists>reps v. ?f m = Inr (reps, v) \<and> v \<noteq> Fin 0))"
    by (intro exI [of _ 5]) simp
  from cover_exhausted [OF h5, where solver = ?f and err = InvalidConfiguration] raise
  have a: "cover_search ?f 5 = Inl InvalidConfiguration" by blast
  have all: "\<forall>n. 1 \<le> n \<and> n \<le> 3 \<longrightarrow> (\<exists>reps v. ?g n = Inr (reps, v) \<and> v \<noteq> Fin 0)"
    by simp
  from cover_exhausted [OF h3, where solver = ?g] all
  have b: "\<exists>st. cover_search ?g 3 = Inr st \<and> opt_n st = Some (- 1)" by blast
  from h5 a b show ?thesis by blast
qed

text \<open>
  C8 as stated fails with the modelled solver. On the first test tree with leaf a
  excluded and no radius the calls for n = 1, ..., 4 return the costs 18, 10, 6
  and 3, none of them 0, and the call for n = 5 raises \<open>InvalidConfiguration\<close>,
  since only four leaves are selectable: the loop raises.
\<close>

theorem cover_raises_counterexample:
  "length (leaves tree_one) = 5
   \<and> find_n_medoids tree_one None [] [''a''] [] 1 = Inr ([''e''], Fin 18)
   \<and> find_n_medoids tree_one None [] [''a''] [] 2 = Inr ([''b'', ''c''], Fin 10)
   \<and> find_n_medoids tree_one None [] [''a''] [] 3 = Inr ([''b'', ''e'', ''c''], Fin 6)
   \<and> find_n_medoids tree_one None [] [''a''] [] 4 = Inr ([''b'', ''e'', ''c'', ''d''], Fin 3)
   \<and> find_n_medoids tree_one None [] [''a''] [] 5 = Inl InvalidConfiguration
   \<and> cover_main tree_one None [] [''a''] [] = Inl InvalidConfiguration"
  by code_simp

text \<open>
  C6, as the code has it. In cover mode the program solves for n = 1, 2, ... up to
  the number of leaves and stops at the first n whose returned cost is exactly
  0: it stops at a count n \<ge> 1 exactly when the call for n returns the cost 0
  and every call for a smaller m \<ge> 1 returned a cost other than 0. On a tree
  with edges of length \<ge> 0 this is the case exactly when the tree has at least
  two leaves, the configuration is valid for n, and n is the least count n \<ge> 1
  for which some set of n selectable leaves has cost 0; the representatives the
  loop leaves are such a set. The count 0 is never tried: the loop never stops
  at 0.
\<close>

theorem cover_stops_at_first_zero:
  assumes "nonneg_edges t" and "1 \<le> n"
  shows "((\<exists>st. cover_main t radius p e f = Inr st \<and> opt_n st = Some (int n))
            = (n \<le> length (leaves t)
               \<and> (\<exists>reps. find_n_medoids t radius p e f n = Inr (reps, Fin 0))
               \<and> (\<forall>m. 1 \<le> m \<and> m < n \<longrightarrow>
                     (\<exists>reps v. find_n_medoids t radius p e f m = Inr (reps, v) \<and> v \<noteq> Fin 0))))
         \<and> ((\<exists>st. cover_main t radius p e f = Inr st \<and> opt_n st = Some (int n))
            = (2 \<le> length (leaves t) \<and> valid_config t n radius p e f
               \<and> (\<exists>S \<in> set (candidates t n e f). cost t radius p e f S = Fin 0)
               \<and> (\<forall>m S. 1 \<le> m \<and> m < n \<and> S \<in> set (candidates t m e f)
                     \<longrightarrow> cost t radius p e f S \<noteq> Fin 0)))
         \<and> (\<forall>st. cover_main t radius p e f = Inr st \<and> opt_n st = Some (int n) \<longrightarrow>
               obj_value st = Some (Fin 0)
               \<and> (\<exists>S \<in> set (candidates t n e f).
                     representatives st = Some S \<and> cost t radius p e f S = Fin 0))
         \<and> (\<forall>st. cover_main t radius p e f = Inr st \<longrightarrow> opt_n st \<noteq> Some 0)"
proof -
  let ?f = "find_n_medoids t radius p e f"
  let ?L = "length (leaves t)"
  let ?st0 = "\<lparr>opt_n = Some (- 1), representatives = None, obj_value = None\<rparr>"
  let ?stops = "\<exists>st. cover_main t radius p e f = Inr st \<and> opt_n st = Some (int n)"
  let ?first = "n \<le> ?L \<and> (\<exists>reps. ?f n = Inr (reps, Fin 0))
                 \<and> (\<forall>m. 1 \<le> m \<and> m < n \<longrightarrow> (\<exists>reps v. ?f m = Inr (reps, v) \<and> v \<noteq> Fin 0))"
  let ?least = "2 \<le> ?L \<and> valid_config t n radius p e f
                 \<and> (\<exists>S \<in> set (candidates t n e f). cost t radius p e f S = Fin 0)
                 \<and> (\<forall>m S. 1 \<le> m \<and> m < n \<and> S \<in> set (candidates t m e f)
                       \<longrightarrow> cost t radius p e f S \<noteq> Fin 0)"
  have main: "cover_main t radius p e f = cover_loop ?f [1..<?L + 1] ?st0"
    by (simp only: cover_main_def cover_search_def)
  have init: "opt_n ?st0 = Some (- 1)" by simp
  have f_solve: "?f m = solve t m radius p e f" for m
    by (simp only: find_n_medoids_def)
  have stopped: "\<exists>k reps. 1 \<le> k \<and> k \<le> ?L \<and> opt_n st = Some (int k) \<and> ?f k = Inr (reps, Fin 0)
                   \<and> representatives st = Some reps \<and> obj_value st = Some (Fin 0)
                   \<and> (\<forall>m. 1 \<le> m \<and> m < k \<longrightarrow> (\<exists>reps v. ?f m = Inr (reps, v) \<and> v \<noteq> Fin 0))"
    if run: "cover_main t radius p e f = Inr st" and o: "opt_n st \<noteq> Some (- 1)" for st
  proof -
    from run have "cover_loop ?f [1..<?L + 1] ?st0 = Inr st" unfolding main .
    from cover_loop_upt [OF this init o] show ?thesis
      by (simp add: less_Suc_eq_le)
  qed
  have E1: "?stops = ?first"
  proof
    assume ?stops
    then obtain st where run: "cover_main t radius p e f = Inr st" and o: "opt_n st = Some (int n)"
      by blast
    from o have "opt_n st \<noteq> Some (- 1)" by simp
    from stopped [OF run this] o show ?first by auto
  next
    assume first: ?first
    then obtain reps where n: "1 \<le> n" "n < ?L + 1" "?f n = Inr (reps, Fin 0)"
      using assms(2) by auto
    from first have before: "\<exists>reps v. ?f m = Inr (reps, v) \<and> v \<noteq> Fin 0" if "1 \<le> m" "m < n" for m
      using that by blast
    have "cover_loop ?f [1..<?L + 1] ?st0
            = Inr (?st0\<lparr>representatives := Some reps, obj_value := Some (Fin 0),
                         opt_n := Some (int n)\<rparr>)"
      by (rule cover_loop_stop [where f = ?f and n = n, OF n(1) n(2) n(3)]) (rule before)
    then show ?stops unfolding main by simp
  qed
  have E2: "?first = ?least"
  proof
    assume first: ?first
    then obtain reps where "solve t n radius p e f = Inr (reps, Fin 0)"
      unfolding f_solve by blast
    from solve_InrD [OF this]
    have two: "2 \<le> ?L" and valid: "valid_config t n radius p e f"
      and "Fin 0 = opt_cost t n radius p e f"
      and "reps \<in> set (optimal_sets t n radius p e f)"
      by simp_all
    with optimal_setsD [of reps t n radius p e f]
    have reps: "reps \<in> set (candidates t n e f)" "cost t radius p e f reps = Fin 0"
      by simp_all
    have none: "cost t radius p e f S \<noteq> Fin 0"
      if m: "1 \<le> m \<and> m < n \<and> S \<in> set (candidates t m e f)" for m S
    proof
      assume zero: "cost t radius p e f S = Fin 0"
      from m have "S \<in> set (candidates t m e f)" by simp
      from opt_cost_zero [OF assms(1) this zero] have z: "opt_cost t m radius p e f = Fin 0" .
      from first m obtain reps' v where "solve t m radius p e f = Inr (reps', v)" "v \<noteq> Fin 0"
        unfolding f_solve by blast
      with solve_InrD [of t m radius p e f reps' v] z show False by simp
    qed
    from two valid reps none show ?least by blast
  next
    assume least: ?least
    then have two: "2 \<le> ?L" and valid: "valid_config t n radius p e f" by simp_all
    from least obtain S where S: "S \<in> set (candidates t n e f)" "cost t radius p e f S = Fin 0"
      by blast
    from valid have sel: "n \<le> length (selectable t e f)" by (simp add: valid_config_def)
    with selectable_le_leaves [of t e f] have nL: "n \<le> ?L" by simp
    from opt_cost_zero [OF assms(1) S] have z: "opt_cost t n radius p e f = Fin 0" .
    from solve_returns [OF two valid] z have at_n: "\<exists>reps. ?f n = Inr (reps, Fin 0)"
      unfolding f_solve by auto
    have before: "\<exists>reps v. ?f m = Inr (reps, v) \<and> v \<noteq> Fin 0" if m: "1 \<le> m \<and> m < n" for m
    proof -
      from m have mn: "m \<le> n" by simp
      from solve_returns [OF two valid_config_le [OF valid mn]] obtain S'
        where s: "solve t m radius p e f = Inr (S', opt_cost t m radius p e f)" by blast
      have "opt_cost t m radius p e f \<noteq> Fin 0"
      proof
        assume zero: "opt_cost t m radius p e f = Fin 0"
        from mn sel have "m \<le> length (selectable t e f)" by simp
        from opt_cost_attained [OF this, of radius p] zero obtain S0
          where "S0 \<in> set (candidates t m e f)" "cost t radius p e f S0 = Fin 0"
          by auto
        with least m show False by blast
      qed
      with s show ?thesis unfolding f_solve by blast
    qed
    from nL at_n before show ?first by blast
  qed
  have E3: "\<forall>st. cover_main t radius p e f = Inr st \<and> opt_n st = Some (int n) \<longrightarrow>
               obj_value st = Some (Fin 0)
               \<and> (\<exists>S \<in> set (candidates t n e f).
                     representatives st = Some S \<and> cost t radius p e f S = Fin 0)"
  proof (intro allI impI)
    fix st
    assume h: "cover_main t radius p e f = Inr st \<and> opt_n st = Some (int n)"
    then have run: "cover_main t radius p e f = Inr st" and o: "opt_n st = Some (int n)"
      by simp_all
    from o have "opt_n st \<noteq> Some (- 1)" by simp
    from stopped [OF run this] o obtain reps
      where r: "?f n = Inr (reps, Fin 0)" "representatives st = Some reps"
        "obj_value st = Some (Fin 0)"
      by auto
    from r(1) have "solve t n radius p e f = Inr (reps, Fin 0)" unfolding f_solve .
    from solve_InrD [OF this]
    have "Fin 0 = opt_cost t n radius p e f" "reps \<in> set (optimal_sets t n radius p e f)"
      by simp_all
    with optimal_setsD [of reps t n radius p e f]
    have "reps \<in> set (candidates t n e f)" "cost t radius p e f reps = Fin 0"
      by simp_all
    with r show "obj_value st = Some (Fin 0)
               \<and> (\<exists>S \<in> set (candidates t n e f).
                     representatives st = Some S \<and> cost t radius p e f S = Fin 0)"
      by blast
  qed
  have E4: "\<forall>st. cover_main t radius p e f = Inr st \<longrightarrow> opt_n st \<noteq> Some 0"
  proof (intro allI impI)
    fix st
    assume run: "cover_main t radius p e f = Inr st"
    show "opt_n st \<noteq> Some 0"
    proof (cases "opt_n st = Some (- 1)")
      case True
      then show ?thesis by simp
    next
      case False
      from stopped [OF run False] show ?thesis by auto
    qed
  qed
  from E1 E2 E3 E4 show ?thesis by simp
qed

theorem cover_stops_at_first_zero_witness:
  "nonneg_edges tree_one \<and> (1::nat) \<le> 3
   \<and> (\<exists>st. cover_main tree_one (Some 3) [] [] [] = Inr st \<and> opt_n st = Some (int 3))
   \<and> valid_config tree_one 3 (Some 3) [] [] []"
proof -
  let ?f = "find_n_medoids tree_one (Some 3) [] [] []"
  have h1: "nonneg_edges tree_one" by code_simp
  have h2: "(1::nat) \<le> 3" by simp
  have len: "3 \<le> length (leaves tree_one)" by code_simp
  have r1: "?f 1 = Inr ([''b''], Fin 17)" by code_simp
  have r2: "?f 2 = Inr ([''a'', ''c''], Fin 4)" by code_simp
  have r3: "?f 3 = Inr ([''a'', ''e'', ''c''], Fin 0)" by code_simp
  have before: "\<forall>m. 1 \<le> m \<and> m < 3 \<longrightarrow> (\<exists>reps v. ?f m = Inr (reps, v) \<and> v \<noteq> Fin 0)"
  proof (intro allI impI)
    fix m :: nat
    assume "1 \<le> m \<and> m < 3"
    then have "m = 1 \<or> m = 2" by arith
    with r1 r2 show "\<exists>reps v. ?f m = Inr (reps, v) \<and> v \<noteq> Fin 0" by auto
  qed
  from r3 have at: "\<exists>reps. ?f 3 = Inr (reps, Fin 0)" by blast
  note inst = cover_stops_at_first_zero [OF h1 h2, of "Some 3" "[]" "[]" "[]"]
  from inst len at before
  have stops: "\<exists>st. cover_main tree_one (Some 3) [] [] [] = Inr st \<and> opt_n st = Some (int 3)"
    by blast
  with inst have "valid_config tree_one 3 (Some 3) [] [] []" by blast
  with h1 h2 stops show ?thesis by blast
qed

text \<open>
  C6 as stated fails when the prior centers alone already cover the tree: with
  prior center e and radius 5 on the first test tree no new representative is
  needed (the empty selection has cost 0), yet the loop stops at n = 1.
\<close>

theorem cover_zero_not_tried_counterexample:
  "cover_main tree_one (Some 5) [''e''] [] []
     = Inr \<lparr>opt_n = Some 1, representatives = Some [''a''], obj_value = Some (Fin 0)\<rparr>
   \<and> solve tree_one 0 (Some 5) [''e''] [] [] = Inr ([], Fin 0)
   \<and> cost tree_one (Some 5) [''e''] [] [] [] = Fin 0"
  by code_simp

section \<open>Colouring the edges\<close>

lemma values_of_drop_color [simp]: "values_of (drop_name ''!color'' anns) ''!color'' = []"
  by (induction anns) (auto simp: values_of_def drop_name_def)

lemma values_of_add_color [simp]:
  "values_of (add_new ''!color'' v anns) ''!color'' = values_of anns ''!color'' @ [v]"
  by (simp add: values_of_def add_new_def)

lemma get_center_drop_color [simp]:
  "get_value (drop_name ''!color'' anns) ''center'' = get_value anns ''center''"
  by (induction anns) (auto simp: get_value_def drop_name_def)

lemma get_center_add_color [simp]:
  "get_value (add_new ''!color'' v anns) ''center'' = get_value anns ''center''"
  by (induction anns) (auto simp: get_value_def add_new_def)

lemma same_center_cong:
  "(\<And>k. get_value (store' k) ''center'' = get_value (store k) ''center'')
     \<Longrightarrow> same_center store' e = same_center store e"
  by (simp add: same_center_def split: option.splits)

lemma same_center_drop:
  "same_center (store(h := drop_name ''!color'' (store h))) e = same_center store e"
  by (rule same_center_cong) simp

lemma color_edge_no_head: "head_node e = None \<Longrightarrow> color_edge pc cs store e = Inr store"
  by (simp add: color_edge_def)

lemma color_edge_head:
  "head_node e = Some h \<Longrightarrow>
   color_edge pc cs store e =
     (if same_center store e then
        (case get_value (store h) ''center'' of
           IntV c \<Rightarrow>
             if c < 0 then
               (case pc of
                  None \<Rightarrow> Inl NameError
                | Some col \<Rightarrow>
                    Inr (store(h := add_new ''!color'' col (drop_name ''!color'' (store h)))))
             else if nat c < length cs
               then Inr (store(h := add_new ''!color'' (cs ! nat c) (drop_name ''!color'' (store h))))
               else Inl IndexError
         | _ \<Rightarrow> Inl TypeError)
      else Inr (store(h := drop_name ''!color'' (store h))))"
  by (simp add: color_edge_def Let_def same_center_drop split: aval.split option.split)

lemma color_edge_InrE:
  assumes "color_edge pc cs store e = Inr store'"
  obtains (no_head) "head_node e = None" "store' = store"
  | (plain) h where "head_node e = Some h" "\<not> same_center store e"
      "store' = store(h := drop_name ''!color'' (store h))"
  | (prior) h c col where "head_node e = Some h" "same_center store e"
      "get_value (store h) ''center'' = IntV c" "c < 0" "pc = Some col"
      "store' = store(h := add_new ''!color'' col (drop_name ''!color'' (store h)))"
  | (cluster) h c where "head_node e = Some h" "same_center store e"
      "get_value (store h) ''center'' = IntV c" "0 \<le> c" "nat c < length cs"
      "store' = store(h := add_new ''!color'' (cs ! nat c) (drop_name ''!color'' (store h)))"
proof (cases "head_node e")
  case None
  with assms no_head show ?thesis by (simp add: color_edge_no_head)
next
  case (Some h)
  note run = assms [unfolded color_edge_head [OF Some]]
  show ?thesis
  proof (cases "same_center store e")
    case False
    with run have "store' = store(h := drop_name ''!color'' (store h))" by simp
    with Some False plain show ?thesis by blast
  next
    case True
    with run obtain c where c: "get_value (store h) ''center'' = IntV c"
      by (cases "get_value (store h) ''center''") simp_all
    show ?thesis
    proof (cases "c < 0")
      case neg: True
      with run True c obtain col where col: "pc = Some col"
        by (cases pc) simp_all
      with run True c neg
      have "store' = store(h := add_new ''!color'' col (drop_name ''!color'' (store h)))"
        by simp
      with Some True c neg col prior show ?thesis by blast
    next
      case nonneg: False
      with run True c have b: "nat c < length cs"
        by (simp split: if_splits)
      with run True c nonneg
      have "store' = store(h := add_new ''!color'' (cs ! nat c) (drop_name ''!color'' (store h)))"
        by simp
      with Some True c nonneg b cluster show ?thesis by force
    qed
  qed
qed

lemma color_edge_center:
  assumes "color_edge pc cs store e = Inr store'"
  shows "get_value (store' k) ''center'' = get_value (store k) ''center''"
  using assms by (cases rule: color_edge_InrE) simp_all

lemma color_edge_frame:
  assumes "color_edge pc cs store e = Inr store'" and "head_node e \<noteq> Some k"
  shows "store' k = store k"
  using assms by (cases rule: color_edge_InrE) auto

lemma color_edge_uncolored:
  assumes "color_edge pc cs store e = Inr store'" and "head_node e = Some h"
    and "\<not> same_center store e"
  shows "values_of (store' h) ''!color'' = []"
  using assms by (cases rule: color_edge_InrE) simp_all

lemma color_edge_colored:
  assumes "color_edge pc cs store e = Inr store'" and "head_node e = Some h"
    and "same_center store e"
  shows "\<exists>c. get_value (store h) ''center'' = IntV c
           \<and> (c < 0 \<longrightarrow> (\<exists>col. pc = Some col \<and> values_of (store' h) ''!color'' = [col]))
           \<and> (0 \<le> c \<longrightarrow> nat c < length cs \<and> values_of (store' h) ''!color'' = [cs ! nat c])"
  using assms by (cases rule: color_edge_InrE) simp_all

lemma color_edges_center:
  "color_edges pc cs store es = Inr store'
     \<Longrightarrow> get_value (store' k) ''center'' = get_value (store k) ''center''"
proof (induction es arbitrary: store)
  case Nil
  then show ?case by simp
next
  case (Cons a es)
  from Cons.prems obtain s where s: "color_edge pc cs store a = Inr s"
    and rest: "color_edges pc cs s es = Inr store'"
    by (cases "color_edge pc cs store a") simp_all
  from Cons.IH [OF rest] color_edge_center [OF s] show ?case by simp
qed

lemma color_edges_frame:
  "color_edges pc cs store es = Inr store' \<Longrightarrow> Some k \<notin> set (map head_node es)
     \<Longrightarrow> store' k = store k"
proof (induction es arbitrary: store)
  case Nil
  then show ?case by simp
next
  case (Cons a es)
  from Cons.prems(1) obtain s where s: "color_edge pc cs store a = Inr s"
    and rest: "color_edges pc cs s es = Inr store'"
    by (cases "color_edge pc cs store a") simp_all
  from Cons.prems(2) have a: "head_node a \<noteq> Some k" and es: "Some k \<notin> set (map head_node es)"
    by auto
  from Cons.IH [OF rest es] color_edge_frame [OF s a] show ?case by simp
qed

lemma color_edges_step:
  assumes "color_edges pc cs store es = Inr store'" and "distinct (map head_node es)"
    and "e \<in> set es" and "head_node e = Some h"
  shows "\<exists>s1 s2. color_edge pc cs s1 e = Inr s2 \<and> store' h = s2 h
           \<and> (\<forall>k. get_value (s1 k) ''center'' = get_value (store k) ''center'')"
  using assms(1-3)
proof (induction es arbitrary: store)
  case Nil
  then show ?case by simp
next
  case (Cons a es)
  from Cons.prems(1) obtain s where s: "color_edge pc cs store a = Inr s"
    and rest: "color_edges pc cs s es = Inr store'"
    by (cases "color_edge pc cs store a") simp_all
  from Cons.prems(2) have d: "distinct (map head_node es)"
    and fresh: "head_node a \<notin> set (map head_node es)"
    by simp_all
  show ?case
  proof (cases "e = a")
    case True
    with fresh assms(4) have "Some h \<notin> set (map head_node es)" by simp
    from color_edges_frame [OF rest this] have "store' h = s h" .
    with s True show ?thesis by blast
  next
    case False
    with Cons.prems(3) have "e \<in> set es" by simp
    from Cons.IH [OF rest d this] obtain s1 s2
      where "color_edge pc cs s1 e = Inr s2" "store' h = s2 h"
        "\<forall>k. get_value (s1 k) ''center'' = get_value (s k) ''center''"
      by blast
    with color_edge_center [OF s] show ?thesis by auto
  qed
qed

lemma same_center_head:
  "head_node e = Some h \<Longrightarrow>
   same_center store e =
     (\<exists>t. tail_node e = Some t \<and> get_value (store h) ''center'' \<noteq> NoneV
          \<and> get_value (store h) ''center'' = get_value (store t) ''center'')"
  by (cases "tail_node e") (simp_all add: same_center_def)

lemma length_all_colors:
  "length (all_colors centers prior_centers)
     = (if truthy prior_centers then length centers + 1 else length centers)"
  by (simp add: all_colors_def Let_def)

lemma length_hex_colors: "length (hex_colors centers prior_centers) = length centers"
  by (simp add: hex_colors_def length_all_colors)

lemma prior_color_truthy:
  "truthy prior_centers
     \<Longrightarrow> prior_color centers prior_centers = Some (HsvColor 0 (length centers + 1))"
  by (simp add: prior_color_def all_colors_def Let_def nth_map_upt del: upt_Suc)

lemma prior_color_Some:
  "prior_color centers prior_centers = Some col
     \<Longrightarrow> truthy prior_centers \<and> col = HsvColor 0 (length centers + 1)"
  by (cases "truthy prior_centers") (simp_all add: prior_color_truthy, simp add: prior_color_def)

lemma color_by_clusters_InrD:
  assumes "color_by_clusters annotate tree centers prior_centers radius = Inr tree'"
  shows "\<exists>store ns2 ns3.
           color_edges (prior_color centers prior_centers) (hex_colors centers prior_centers)
             (node_annotations (annotate tree centers prior_centers radius))
             (edges (annotate tree centers prior_centers radius)) = Inr store
           \<and> color_centers (hex_colors centers prior_centers) 0 centers
               (map (color_regular (special_taxa centers prior_centers))
                    (taxon_namespace (annotate tree centers prior_centers radius))) = Inr ns2
           \<and> (if truthy prior_centers
               then color_priors (prior_color centers prior_centers) (prior_list prior_centers) ns2
               else Inr ns2) = Inr ns3
           \<and> tree' = (annotate tree centers prior_centers radius)
                        \<lparr>node_annotations := store, taxon_namespace := ns3\<rparr>"
proof -
  let ?t = "annotate tree centers prior_centers radius"
  let ?pc = "prior_color centers prior_centers"
  let ?cs = "hex_colors centers prior_centers"
  note run = assms [unfolded color_by_clusters_def Let_def]
  from run obtain store where store: "color_edges ?pc ?cs (node_annotations ?t) (edges ?t) = Inr store"
    by (cases "color_edges ?pc ?cs (node_annotations ?t) (edges ?t)") simp_all
  let ?ns1 = "map (color_regular (special_taxa centers prior_centers)) (taxon_namespace ?t)"
  from run store obtain ns2 where ns2: "color_centers ?cs 0 centers ?ns1 = Inr ns2"
    by (cases "color_centers ?cs 0 centers ?ns1") simp_all
  let ?p = "if truthy prior_centers then color_priors ?pc (prior_list prior_centers) ns2 else Inr ns2"
  from run store ns2 obtain ns3 where ns3: "?p = Inr ns3"
    by (cases ?p) simp_all
  from run store ns2 ns3 have "tree' = ?t\<lparr>node_annotations := store, taxon_namespace := ns3\<rparr>"
    by simp
  with store ns2 ns3 show ?thesis by blast
qed

text \<open>
  C7. When \<^verbatim>\<open>color_by_clusters\<close> returns, the head node of an edge carries a colour
  if and only if the edge has a tail node and head and tail carry equal
  \<^verbatim>\<open>center\<close> annotations that are not \<^verbatim>\<open>None\<close>. The colour is then the only one on
  the node: the reserved colour of the prior centers when the shared value is
  negative, and the colour of \<^verbatim>\<open>hex_colors\<close> at the position of the value otherwise.
  Each node is the head of one edge of the traversal.
\<close>

theorem edge_colored_iff_same_center:
  assumes "color_by_clusters annotate tree centers prior_centers radius = Inr tree'"
    and "distinct (map head_node (edges (annotate tree centers prior_centers radius)))"
    and "e \<in> set (edges (annotate tree centers prior_centers radius))"
    and "head_node e = Some h"
  shows "(values_of (node_annotations tree' h) ''!color'' \<noteq> [])
           = (\<exists>t. tail_node e = Some t
                \<and> get_value (node_annotations (annotate tree centers prior_centers radius) h) ''center'' \<noteq> NoneV
                \<and> get_value (node_annotations (annotate tree centers prior_centers radius) h) ''center''
                    = get_value (node_annotations (annotate tree centers prior_centers radius) t) ''center'')
         \<and> (values_of (node_annotations tree' h) ''!color'' \<noteq> [] \<longrightarrow>
              (\<exists>c. get_value (node_annotations (annotate tree centers prior_centers radius) h) ''center'' = IntV c
                 \<and> (c < 0 \<longrightarrow> truthy prior_centers
                       \<and> values_of (node_annotations tree' h) ''!color''
                           = [HsvColor 0 (length centers + 1)])
                 \<and> (0 \<le> c \<longrightarrow> nat c < length centers
                       \<and> values_of (node_annotations tree' h) ''!color''
                           = [hex_colors centers prior_centers ! nat c])))"
proof -
  let ?t = "annotate tree centers prior_centers radius"
  let ?pc = "prior_color centers prior_centers"
  let ?cs = "hex_colors centers prior_centers"
  let ?vals = "values_of (node_annotations tree' h) ''!color''"
  from color_by_clusters_InrD [OF assms(1)] obtain store
    where store: "color_edges ?pc ?cs (node_annotations ?t) (edges ?t) = Inr store"
      and tree': "node_annotations tree' = store"
    by auto
  from color_edges_step [OF store assms(2,3,4)] obtain s1 s2
    where step: "color_edge ?pc ?cs s1 e = Inr s2" and final: "store h = s2 h"
      and centers: "\<And>k. get_value (s1 k) ''center'' = get_value (node_annotations ?t k) ''center''"
    by blast
  have same: "same_center s1 e = same_center (node_annotations ?t) e"
    by (rule same_center_cong) (rule centers)
  have vals: "?vals = values_of (s2 h) ''!color''"
    by (simp add: tree' final)
  show ?thesis
  proof (cases "same_center s1 e")
    case False
    from color_edge_uncolored [OF step assms(4) False] vals have "?vals = []" by simp
    with False same same_center_head [OF assms(4), of "node_annotations ?t"] show ?thesis
      by simp
  next
    case True
    from color_edge_colored [OF step assms(4) True] obtain c
      where c: "get_value (s1 h) ''center'' = IntV c"
        and neg: "c < 0 \<longrightarrow> (\<exists>col. ?pc = Some col \<and> values_of (s2 h) ''!color'' = [col])"
        and pos: "0 \<le> c \<longrightarrow> nat c < length ?cs \<and> values_of (s2 h) ''!color'' = [?cs ! nat c]"
      by blast
    from c centers have c': "get_value (node_annotations ?t h) ''center'' = IntV c" by simp
    have neg': "c < 0 \<longrightarrow> truthy prior_centers \<and> ?vals = [HsvColor 0 (length centers + 1)]"
      using neg vals by (auto dest: prior_color_Some)
    have pos': "0 \<le> c \<longrightarrow> nat c < length centers \<and> ?vals = [?cs ! nat c]"
      using pos vals by (simp add: length_hex_colors)
    from neg' pos' have "?vals \<noteq> []" by (cases "c < 0") auto
    with True same same_center_head [OF assms(4), of "node_annotations ?t"] c' neg' pos'
    show ?thesis by simp
  qed
qed

theorem edge_colored_iff_same_center_witness:
  "\<exists>tree'. color_by_clusters already_annotated cherry [''a''] (Some [''b'']) None = Inr tree'
      \<and> values_of (node_annotations tree' 1) ''!color'' = [HsvColor 1 2]"
proof -
  let ?run = "color_by_clusters already_annotated cherry [''a''] (Some [''b'']) None"
  let ?t = "already_annotated cherry [''a''] (Some [''b'']) None"
  let ?e = "\<lparr>head_node = Some 1, tail_node = Some 0\<rparr>"
  have "case ?run of Inl err \<Rightarrow> False | Inr t \<Rightarrow> True" by code_simp
  then obtain tree' where h1: "?run = Inr tree'" by (cases ?run) simp_all
  have h2: "distinct (map head_node (edges ?t))" by code_simp
  have h3: "?e \<in> set (edges ?t)" by code_simp
  have h4: "head_node ?e = Some 1" by simp
  have center: "get_value (node_annotations ?t 1) ''center'' = IntV 0"
    "get_value (node_annotations ?t 0) ''center'' = IntV 0"
    by code_simp+
  have color: "hex_colors [''a''] (Some [''b'']) ! nat 0 = HsvColor 1 2" by code_simp
  from edge_colored_iff_same_center [OF h1 h2 h3 h4] center color
  have "values_of (node_annotations tree' 1) ''!color'' = [HsvColor 1 2]" by simp
  with h1 show ?thesis by blast
qed

section \<open>Index and name errors of the colouring\<close>

lemma color_edge_safe:
  assumes "\<And>h. head_node e = Some h \<Longrightarrow> same_center store e
             \<Longrightarrow> center_in_range centers prior_centers (get_value (store h) ''center'')"
  shows "color_edge (prior_color centers prior_centers) (hex_colors centers prior_centers) store e
           \<noteq> Inl IndexError
         \<and> color_edge (prior_color centers prior_centers) (hex_colors centers prior_centers) store e
           \<noteq> Inl NameError"
proof (cases "head_node e")
  case None
  then show ?thesis by (simp add: color_edge_no_head)
next
  case (Some h)
  show ?thesis
  proof (cases "same_center store e")
    case False
    then show ?thesis by (simp add: color_edge_head [OF Some])
  next
    case True
    from assms [OF Some True]
    have r: "center_in_range centers prior_centers (get_value (store h) ''center'')" .
    show ?thesis
    proof (cases "get_value (store h) ''center''")
      case (IntV c)
      show ?thesis
      proof (cases "c < 0")
        case neg: True
        with r IntV have "truthy prior_centers" by (simp add: center_in_range_def)
        from prior_color_truthy [OF this, of centers] neg IntV show ?thesis
          by (simp add: color_edge_head [OF Some])
      next
        case False
        with r IntV have "nat c < length (hex_colors centers prior_centers)"
          by (simp add: center_in_range_def length_hex_colors)
        with False IntV show ?thesis
          by (simp add: color_edge_head [OF Some])
      qed
    qed (simp_all add: color_edge_head [OF Some])
  qed
qed

lemma same_center_not_none:
  "head_node e = Some h \<Longrightarrow> same_center store e \<Longrightarrow> get_value (store h) ''center'' \<noteq> NoneV"
  by (auto simp: same_center_def split: option.splits)

lemma color_edge_bad:
  assumes "head_node e = Some h" and "same_center store e"
    and "int_or_none (get_value (store h) ''center'')"
    and "\<not> center_in_range centers prior_centers (get_value (store h) ''center'')"
  shows "color_edge (prior_color centers prior_centers) (hex_colors centers prior_centers) store e
           = Inl IndexError
         \<or> color_edge (prior_color centers prior_centers) (hex_colors centers prior_centers) store e
           = Inl NameError"
proof -
  from same_center_not_none [OF assms(1,2)] assms(3) obtain c
    where c: "get_value (store h) ''center'' = IntV c"
    by (cases "get_value (store h) ''center''") (simp_all add: int_or_none_def)
  show ?thesis
  proof (cases "c < 0")
    case True
    with assms(4) c have "\<not> truthy prior_centers" by (simp add: center_in_range_def)
    then have "prior_color centers prior_centers = None" by (simp add: prior_color_def)
    with True c assms(2) show ?thesis
      by (simp add: color_edge_head [OF assms(1)])
  next
    case False
    with assms(4) c have "\<not> nat c < length (hex_colors centers prior_centers)"
      by (simp add: center_in_range_def length_hex_colors)
    with False c assms(2) show ?thesis
      by (simp add: color_edge_head [OF assms(1)])
  qed
qed

lemma color_edge_runs:
  assumes "\<And>h. head_node e = Some h \<Longrightarrow> int_or_none (get_value (store h) ''center'')"
    and "\<And>h. head_node e = Some h \<Longrightarrow> same_center store e
           \<Longrightarrow> center_in_range centers prior_centers (get_value (store h) ''center'')"
  shows "\<exists>s. color_edge (prior_color centers prior_centers) (hex_colors centers prior_centers)
                store e = Inr s"
proof (cases "head_node e")
  case None
  then show ?thesis by (simp add: color_edge_no_head)
next
  case (Some h)
  show ?thesis
  proof (cases "same_center store e")
    case False
    then show ?thesis by (simp add: color_edge_head [OF Some])
  next
    case True
    from same_center_not_none [OF Some True] assms(1) [OF Some] obtain c
      where c: "get_value (store h) ''center'' = IntV c"
      by (cases "get_value (store h) ''center''") (simp_all add: int_or_none_def)
    from assms(2) [OF Some True] c
    have r: "center_in_range centers prior_centers (IntV c)" by simp
    show ?thesis
    proof (cases "c < 0")
      case neg: True
      with r have "truthy prior_centers" by (simp add: center_in_range_def)
      from prior_color_truthy [OF this, of centers] neg c True show ?thesis
        by (simp add: color_edge_head [OF Some])
    next
      case False
      with r have "nat c < length (hex_colors centers prior_centers)"
        by (simp add: center_in_range_def length_hex_colors)
      with False c True show ?thesis
        by (simp add: color_edge_head [OF Some])
    qed
  qed
qed

lemma color_edges_safe:
  assumes "\<And>e h. e \<in> set es \<Longrightarrow> head_node e = Some h \<Longrightarrow> same_center store e
             \<Longrightarrow> center_in_range centers prior_centers (get_value (store h) ''center'')"
  shows "color_edges (prior_color centers prior_centers) (hex_colors centers prior_centers) store es
           \<noteq> Inl IndexError
         \<and> color_edges (prior_color centers prior_centers) (hex_colors centers prior_centers) store es
           \<noteq> Inl NameError"
  using assms
proof (induction es arbitrary: store)
  case Nil
  then show ?case by simp
next
  case (Cons a es)
  let ?pc = "prior_color centers prior_centers"
  let ?cs = "hex_colors centers prior_centers"
  have a: "color_edge ?pc ?cs store a \<noteq> Inl IndexError \<and> color_edge ?pc ?cs store a \<noteq> Inl NameError"
    by (rule color_edge_safe) (rule Cons.prems [of a], simp_all)
  show ?case
  proof (cases "color_edge ?pc ?cs store a")
    case (Inl err)
    with a show ?thesis by simp
  next
    case (Inr s)
    have same: "same_center s e = same_center store e" for e
      by (rule same_center_cong) (rule color_edge_center [OF Inr])
    have "color_edges ?pc ?cs s es \<noteq> Inl IndexError \<and> color_edges ?pc ?cs s es \<noteq> Inl NameError"
    proof (rule Cons.IH)
      fix e h
      assume e: "e \<in> set es" and h: "head_node e = Some h" and sc: "same_center s e"
      from e have mem: "e \<in> set (a # es)" by simp
      from sc have "same_center store e" by (simp only: same)
      from Cons.prems [OF mem h this]
      have "center_in_range centers prior_centers (get_value (store h) ''center'')" .
      with color_edge_center [OF Inr, of h]
      show "center_in_range centers prior_centers (get_value (s h) ''center'')" by simp
    qed
    with Inr show ?thesis by simp
  qed
qed

lemma color_edges_bad:
  assumes "\<And>e h. e \<in> set es \<Longrightarrow> head_node e = Some h
             \<Longrightarrow> int_or_none (get_value (store h) ''center'')"
    and "\<exists>e \<in> set es. \<exists>h. head_node e = Some h \<and> same_center store e
           \<and> \<not> center_in_range centers prior_centers (get_value (store h) ''center'')"
  shows "color_edges (prior_color centers prior_centers) (hex_colors centers prior_centers) store es
           = Inl IndexError
         \<or> color_edges (prior_color centers prior_centers) (hex_colors centers prior_centers) store es
           = Inl NameError"
  using assms
proof (induction es arbitrary: store)
  case Nil
  then show ?case by simp
next
  case (Cons a es)
  let ?pc = "prior_color centers prior_centers"
  let ?cs = "hex_colors centers prior_centers"
  let ?bad = "\<lambda>st e. \<exists>h. head_node e = Some h \<and> same_center st e
                \<and> \<not> center_in_range centers prior_centers (get_value (st h) ''center'')"
  show ?case
  proof (cases "?bad store a")
    case True
    then obtain h where h: "head_node a = Some h" "same_center store a"
      "\<not> center_in_range centers prior_centers (get_value (store h) ''center'')"
      by blast
    have "int_or_none (get_value (store h) ''center'')"
      by (rule Cons.prems(1) [of a]) (simp_all add: h(1))
    from color_edge_bad [OF h(1,2) this h(3)] show ?thesis by auto
  next
    case False
    have "\<exists>s. color_edge ?pc ?cs store a = Inr s"
    proof (rule color_edge_runs)
      fix h
      assume "head_node a = Some h"
      then show "int_or_none (get_value (store h) ''center'')"
        by (intro Cons.prems(1) [of a]) simp_all
    next
      fix h
      assume "head_node a = Some h" "same_center store a"
      with False show "center_in_range centers prior_centers (get_value (store h) ''center'')"
        by blast
    qed
    then obtain s where s: "color_edge ?pc ?cs store a = Inr s" by blast
    have same: "same_center s e = same_center store e" for e
      by (rule same_center_cong) (rule color_edge_center [OF s])
    have cen: "get_value (s h) ''center'' = get_value (store h) ''center''" for h
      by (rule color_edge_center [OF s])
    from Cons.prems(2) False obtain e where e: "e \<in> set es" "?bad store e" by auto
    then have bad: "\<exists>e \<in> set es. ?bad s e" by (auto simp: same cen)
    have typed: "int_or_none (get_value (s h) ''center'')"
      if "e' \<in> set es" "head_node e' = Some h" for e' h
      using Cons.prems(1) [of e' h] that by (simp add: cen)
    from Cons.IH [OF typed bad] s show ?thesis by simp
  qed
qed

lemma color_centers_safe:
  "i + length rest \<le> length cs
     \<Longrightarrow> color_centers cs i rest ns \<noteq> Inl IndexError \<and> color_centers cs i rest ns \<noteq> Inl NameError"
  by (induction rest arbitrary: i ns) (auto split: option.splits)

lemma color_priors_safe:
  "color_priors (Some col) ps ns \<noteq> Inl IndexError \<and> color_priors (Some col) ps ns \<noteq> Inl NameError"
  by (induction ps arbitrary: ns) (auto split: option.splits)

lemma colored_in_rangeD:
  "colored_in_range t centers prior_centers \<Longrightarrow> e \<in> set (edges t) \<Longrightarrow> head_node e = Some h
     \<Longrightarrow> same_center (node_annotations t) e
     \<Longrightarrow> center_in_range centers prior_centers (get_value (node_annotations t h) ''center'')"
  by (auto simp: colored_in_range_def list_all_iff)

lemma not_colored_in_rangeD:
  "\<not> colored_in_range t centers prior_centers
     \<Longrightarrow> \<exists>e \<in> set (edges t). \<exists>h. head_node e = Some h \<and> same_center (node_annotations t) e
           \<and> \<not> center_in_range centers prior_centers (get_value (node_annotations t h) ''center'')"
  by (auto simp: colored_in_range_def list_all_iff split: option.splits if_splits)

lemma int_centersD:
  "int_centers t \<Longrightarrow> e \<in> set (edges t) \<Longrightarrow> head_node e = Some h
     \<Longrightarrow> int_or_none (get_value (node_annotations t h) ''center'')"
  by (auto simp: int_centers_def list_all_iff)

lemma centers_in_range_colored:
  "centers_in_range t centers prior_centers \<Longrightarrow> colored_in_range t centers prior_centers"
  by (auto simp: centers_in_range_def colored_in_range_def list_all_iff split: option.splits)

lemma color_by_clusters_safe:
  assumes "colored_in_range (annotate tree centers prior_centers radius) centers prior_centers"
  shows "color_by_clusters annotate tree centers prior_centers radius \<noteq> Inl IndexError
         \<and> color_by_clusters annotate tree centers prior_centers radius \<noteq> Inl NameError"
proof -
  let ?t = "annotate tree centers prior_centers radius"
  let ?pc = "prior_color centers prior_centers"
  let ?cs = "hex_colors centers prior_centers"
  let ?ns1 = "map (color_regular (special_taxa centers prior_centers)) (taxon_namespace ?t)"
  have edges: "color_edges ?pc ?cs (node_annotations ?t) (edges ?t) \<noteq> Inl IndexError
               \<and> color_edges ?pc ?cs (node_annotations ?t) (edges ?t) \<noteq> Inl NameError"
    by (rule color_edges_safe) (rule colored_in_rangeD [OF assms])
  have cen: "color_centers ?cs 0 centers ?ns1 \<noteq> Inl IndexError
             \<and> color_centers ?cs 0 centers ?ns1 \<noteq> Inl NameError"
    by (rule color_centers_safe) (simp add: length_hex_colors)
  have pri: "(if truthy prior_centers then color_priors ?pc (prior_list prior_centers) ns2
              else Inr ns2) \<noteq> Inl IndexError
             \<and> (if truthy prior_centers then color_priors ?pc (prior_list prior_centers) ns2
              else Inr ns2) \<noteq> Inl NameError" for ns2
    by (cases "truthy prior_centers") (simp_all add: prior_color_truthy color_priors_safe)
  show ?thesis
  proof (cases "color_edges ?pc ?cs (node_annotations ?t) (edges ?t)")
    case (Inl err)
    with edges show ?thesis by (simp add: color_by_clusters_def Let_def)
  next
    case store: (Inr store)
    show ?thesis
    proof (cases "color_centers ?cs 0 centers ?ns1")
      case (Inl err)
      with cen store show ?thesis by (simp add: color_by_clusters_def Let_def)
    next
      case ns2: (Inr ns2)
      show ?thesis
      proof (cases "if truthy prior_centers then color_priors ?pc (prior_list prior_centers) ns2
                    else Inr ns2")
        case (Inl err)
        with pri [of ns2] store ns2 show ?thesis by (simp add: color_by_clusters_def Let_def)
      next
        case (Inr ns3)
        with store ns2 show ?thesis by (simp add: color_by_clusters_def Let_def)
      qed
    qed
  qed
qed

lemma color_by_clusters_faults:
  assumes "int_centers (annotate tree centers prior_centers radius)"
    and "\<not> colored_in_range (annotate tree centers prior_centers radius) centers prior_centers"
  shows "color_by_clusters annotate tree centers prior_centers radius = Inl IndexError
         \<or> color_by_clusters annotate tree centers prior_centers radius = Inl NameError"
proof -
  let ?t = "annotate tree centers prior_centers radius"
  let ?pc = "prior_color centers prior_centers"
  let ?cs = "hex_colors centers prior_centers"
  have "color_edges ?pc ?cs (node_annotations ?t) (edges ?t) = Inl IndexError
        \<or> color_edges ?pc ?cs (node_annotations ?t) (edges ?t) = Inl NameError"
    by (rule color_edges_bad) (rule int_centersD [OF assms(1)], assumption+,
        rule not_colored_in_rangeD [OF assms(2)])
  then show ?thesis
    by (auto simp: color_by_clusters_def Let_def)
qed

text \<open>
  C9, as the code has it. \<^verbatim>\<open>color_by_clusters\<close> raises neither \<^verbatim>\<open>IndexError\<close> nor the
  \<^verbatim>\<open>NameError\<close> of the unbound \<^verbatim>\<open>prior_color\<close> when every edge that the loop colours
  (head and tail carry the same \<^verbatim>\<open>center\<close>, which is not \<^verbatim>\<open>None\<close>) has that value in
  range: a negative value only with prior centers, a value from 0 on below the
  number of centers. For \<^verbatim>\<open>center\<close> annotations that are integers or \<^verbatim>\<open>None\<close> the
  converse holds as well: a value out of range on a coloured edge raises one of
  the two errors. The condition on every \<^verbatim>\<open>center\<close> annotation implies the
  condition on the coloured edges.
\<close>

theorem index_or_name_error_iff:
  "(colored_in_range (annotate tree centers prior_centers radius) centers prior_centers
      \<longrightarrow> color_by_clusters annotate tree centers prior_centers radius \<noteq> Inl IndexError
          \<and> color_by_clusters annotate tree centers prior_centers radius \<noteq> Inl NameError)
   \<and> (int_centers (annotate tree centers prior_centers radius)
       \<and> \<not> colored_in_range (annotate tree centers prior_centers radius) centers prior_centers
      \<longrightarrow> color_by_clusters annotate tree centers prior_centers radius = Inl IndexError
          \<or> color_by_clusters annotate tree centers prior_centers radius = Inl NameError)
   \<and> (centers_in_range (annotate tree centers prior_centers radius) centers prior_centers
      \<longrightarrow> colored_in_range (annotate tree centers prior_centers radius) centers prior_centers)"
  using color_by_clusters_safe [of annotate tree centers prior_centers radius]
    color_by_clusters_faults [of annotate tree centers prior_centers radius]
    centers_in_range_colored [of "annotate tree centers prior_centers radius" centers prior_centers]
  by blast

theorem index_or_name_error_iff_witness:
  "colored_in_range (already_annotated cherry [''a''] None None) [''a''] None
   \<and> color_by_clusters already_annotated cherry [''a''] None None \<noteq> Inl IndexError
   \<and> color_by_clusters already_annotated cherry [''a''] None None \<noteq> Inl NameError
   \<and> int_centers (already_annotated cherry_prior [''a''] None None)
   \<and> (color_by_clusters already_annotated cherry_prior [''a''] None None = Inl IndexError
       \<or> color_by_clusters already_annotated cherry_prior [''a''] None None = Inl NameError)
   \<and> int_centers (already_annotated cherry_far [''a''] None None)
   \<and> (color_by_clusters already_annotated cherry_far [''a''] None None = Inl IndexError
       \<or> color_by_clusters already_annotated cherry_far [''a''] None None = Inl NameError)
   \<and> centers_in_range (already_annotated cherry [''a''] (Some [''b'']) None) [''a''] (Some [''b''])
   \<and> colored_in_range (already_annotated cherry [''a''] (Some [''b'']) None) [''a''] (Some [''b''])"
proof -
  have b': "int_centers (already_annotated cherry_far [''a''] None None)"
    by code_simp
  have c': "\<not> colored_in_range (already_annotated cherry_far [''a''] None None) [''a''] None"
    by code_simp
  have a: "colored_in_range (already_annotated cherry [''a''] None None) [''a''] None"
    by code_simp
  have b: "int_centers (already_annotated cherry_prior [''a''] None None)"
    by code_simp
  have c: "\<not> colored_in_range (already_annotated cherry_prior [''a''] None None) [''a''] None"
    by code_simp
  have d: "centers_in_range (already_annotated cherry [''a''] (Some [''b'']) None)
             [''a''] (Some [''b''])"
    by code_simp
  from index_or_name_error_iff [of already_annotated cherry "[''a'']" None None]
    index_or_name_error_iff [of already_annotated cherry_prior "[''a'']" None None]
    index_or_name_error_iff [of already_annotated cherry_far "[''a'']" None None]
    index_or_name_error_iff [of already_annotated cherry "[''a'']" "Some [''b'']" None]
    a b c d b' c'
  show ?thesis by blast
qed

text \<open>
  C9 as stated fails in its "only": the tree below has a negative \<^verbatim>\<open>center\<close> without
  prior centers, on an edge whose tail has another \<^verbatim>\<open>center\<close>. The edge is not
  coloured, and the call returns.
\<close>

theorem uncolored_out_of_range_counterexample:
  "\<not> centers_in_range (already_annotated cherry [''a''] None None) [''a''] None
   \<and> result_taxa (color_by_clusters already_annotated cherry [''a''] None None)
       = Inr [\<lparr>label = ''a'', annotations = [(''!color'', HsvColor 0 1)]\<rparr>,
              \<lparr>label = ''b'', annotations = [(''!color'', StrV ''#000000'')]\<rparr>]"
  by code_simp

section \<open>Colouring the taxa\<close>

lemma get_taxon_Some: "get_taxon ns l = Some k \<Longrightarrow> k < length ns \<and> label (ns ! k) = l"
proof (induction ns arbitrary: k)
  case Nil
  then show ?case by simp
next
  case (Cons tx ns)
  show ?case
  proof (cases "label tx = l")
    case True
    with Cons.prems show ?thesis by simp
  next
    case False
    with Cons.prems obtain j where j: "get_taxon ns l = Some j" and k: "k = Suc j"
      by (cases "get_taxon ns l") simp_all
    from Cons.IH [OF j] k show ?thesis by simp
  qed
qed

lemma get_taxon_cong: "map label ns' = map label ns \<Longrightarrow> get_taxon ns' l = get_taxon ns l"
proof (induction ns arbitrary: ns')
  case Nil
  then show ?case by simp
next
  case (Cons tx ns)
  then obtain tx' ms where ns': "ns' = tx' # ms" and tx: "label tx' = label tx"
    and ms: "map label ms = map label ns"
    by (cases ns') simp_all
  from Cons.IH [OF ms] ns' tx show ?case by simp
qed

lemma get_taxon_distinct:
  "distinct (map label ns) \<Longrightarrow> k < length ns \<Longrightarrow> get_taxon ns (label (ns ! k)) = Some k"
proof (induction ns arbitrary: k)
  case Nil
  then show ?case by simp
next
  case (Cons tx ns)
  show ?case
  proof (cases k)
    case 0
    then show ?thesis by simp
  next
    case (Suc j)
    with Cons.prems have j: "j < length ns" and d: "distinct (map label ns)"
      and fresh: "label tx \<notin> label ` set ns"
      by simp_all
    from j have "ns ! j \<in> set ns" by (rule nth_mem)
    then have "label (ns ! j) \<in> label ` set ns" by (rule imageI)
    with fresh have "label tx \<noteq> label (ns ! j)" by auto
    with Cons.IH [OF d j] Suc show ?thesis by simp
  qed
qed

lemma label_add_color [simp]: "label (add_color c tx) = label tx"
  by (simp add: add_color_def)

lemma values_add_color [simp]:
  "values_of (annotations (add_color c tx)) ''!color'' = values_of (annotations tx) ''!color'' @ [c]"
  by (simp add: add_color_def)

lemma labels_update:
  "k < length ns \<Longrightarrow> map label (ns[k := add_color c (ns ! k)]) = map label ns"
  by (simp add: map_update list_update_same_conv)

lemma label_color_regular [simp]: "label (color_regular sp tx) = label tx"
  by (simp add: color_regular_def Let_def)

lemma values_color_regular:
  "values_of (annotations (color_regular sp tx)) ''!color''
     = (if label tx \<in> sp then [] else [black])"
  by (simp add: color_regular_def Let_def)

lemma color_centers_labels:
  "color_centers cs i rest ns = Inr ns' \<Longrightarrow> map label ns' = map label ns"
proof (induction rest arbitrary: i ns)
  case Nil
  then show ?case by simp
next
  case (Cons c rest)
  from Cons.prems obtain k where k: "get_taxon ns c = Some k"
    and run: "color_centers cs (Suc i) rest (ns[k := add_color (cs ! i) (ns ! k)]) = Inr ns'"
    by (auto split: if_splits option.splits)
  from get_taxon_Some [OF k] have "k < length ns" by simp
  from Cons.IH [OF run] labels_update [OF this] show ?case by simp
qed

lemma color_centers_other:
  "color_centers cs i rest ns = Inr ns' \<Longrightarrow> label (ns ! k) \<notin> set rest \<Longrightarrow> ns' ! k = ns ! k"
proof (induction rest arbitrary: i ns)
  case Nil
  then show ?case by simp
next
  case (Cons c rest)
  from Cons.prems(1) obtain j where j: "get_taxon ns c = Some j"
    and run: "color_centers cs (Suc i) rest (ns[j := add_color (cs ! i) (ns ! j)]) = Inr ns'"
    by (auto split: if_splits option.splits)
  from get_taxon_Some [OF j] Cons.prems(2) have neq: "j \<noteq> k" by auto
  then have same: "(ns[j := add_color (cs ! i) (ns ! j)]) ! k = ns ! k" by simp
  with Cons.prems(2) have "label ((ns[j := add_color (cs ! i) (ns ! j)]) ! k) \<notin> set rest"
    by simp
  from Cons.IH [OF run this] same show ?case by simp
qed

lemma color_centers_hit:
  "color_centers cs i rest ns = Inr ns' \<Longrightarrow> distinct rest \<Longrightarrow> j < length rest
     \<Longrightarrow> get_taxon ns (rest ! j) = Some k
     \<Longrightarrow> values_of (annotations (ns' ! k)) ''!color''
           = values_of (annotations (ns ! k)) ''!color'' @ [cs ! (i + j)]"
proof (induction rest arbitrary: i j ns)
  case Nil
  then show ?case by simp
next
  case (Cons c rest)
  from Cons.prems(1) obtain m where m: "get_taxon ns c = Some m"
    and run: "color_centers cs (Suc i) rest (ns[m := add_color (cs ! i) (ns ! m)]) = Inr ns'"
    by (auto split: if_splits option.splits)
  let ?ns1 = "ns[m := add_color (cs ! i) (ns ! m)]"
  from get_taxon_Some [OF m] have mlen: "m < length ns" and mlab: "label (ns ! m) = c"
    by simp_all
  from Cons.prems(2) have fresh: "c \<notin> set rest" and d: "distinct rest" by simp_all
  show ?case
  proof (cases j)
    case 0
    with Cons.prems(4) m have km: "k = m" by simp
    from mlen mlab fresh km have "label (?ns1 ! k) \<notin> set rest" by simp
    from color_centers_other [OF run this] km mlen 0 show ?thesis by simp
  next
    case (Suc j')
    with Cons.prems(3) have j': "j' < length rest" by simp
    from Suc Cons.prems(4) have k: "get_taxon ns (rest ! j') = Some k" by simp
    from j' fresh have "rest ! j' \<noteq> c" by auto
    with get_taxon_Some [OF k] mlab have km: "k \<noteq> m" by auto
    have "get_taxon ?ns1 (rest ! j') = Some k"
      using get_taxon_cong [OF labels_update [OF mlen]] k by simp
    from Cons.IH [OF run d j' this] km Suc show ?thesis by simp
  qed
qed

lemma color_priors_labels:
  "color_priors pc ps ns = Inr ns' \<Longrightarrow> map label ns' = map label ns"
proof (induction ps arbitrary: ns)
  case Nil
  then show ?case by simp
next
  case (Cons p ps)
  from Cons.prems obtain k col where k: "get_taxon ns p = Some k" and "pc = Some col"
    and run: "color_priors pc ps (ns[k := add_color col (ns ! k)]) = Inr ns'"
    by (auto split: option.splits)
  from get_taxon_Some [OF k] have "k < length ns" by simp
  from Cons.IH [OF run] labels_update [OF this] show ?case by simp
qed

lemma color_priors_other:
  "color_priors pc ps ns = Inr ns' \<Longrightarrow> label (ns ! k) \<notin> set ps \<Longrightarrow> ns' ! k = ns ! k"
proof (induction ps arbitrary: ns)
  case Nil
  then show ?case by simp
next
  case (Cons p ps)
  from Cons.prems(1) obtain j col where j: "get_taxon ns p = Some j" and "pc = Some col"
    and run: "color_priors pc ps (ns[j := add_color col (ns ! j)]) = Inr ns'"
    by (auto split: option.splits)
  from get_taxon_Some [OF j] Cons.prems(2) have neq: "j \<noteq> k" by auto
  then have same: "(ns[j := add_color col (ns ! j)]) ! k = ns ! k" by simp
  with Cons.prems(2) have "label ((ns[j := add_color col (ns ! j)]) ! k) \<notin> set ps"
    by simp
  from Cons.IH [OF run this] same show ?case by simp
qed

lemma color_priors_hit:
  "color_priors pc ps ns = Inr ns' \<Longrightarrow> distinct ps \<Longrightarrow> p \<in> set ps
     \<Longrightarrow> get_taxon ns p = Some k
     \<Longrightarrow> \<exists>col. pc = Some col
           \<and> values_of (annotations (ns' ! k)) ''!color''
               = values_of (annotations (ns ! k)) ''!color'' @ [col]"
proof (induction ps arbitrary: ns)
  case Nil
  then show ?case by simp
next
  case (Cons q ps)
  from Cons.prems(1) obtain m col where m: "get_taxon ns q = Some m" and col: "pc = Some col"
    and run: "color_priors pc ps (ns[m := add_color col (ns ! m)]) = Inr ns'"
    by (auto split: option.splits)
  let ?ns1 = "ns[m := add_color col (ns ! m)]"
  from get_taxon_Some [OF m] have mlen: "m < length ns" and mlab: "label (ns ! m) = q"
    by simp_all
  from Cons.prems(2) have fresh: "q \<notin> set ps" and d: "distinct ps" by simp_all
  show ?case
  proof (cases "p = q")
    case True
    with Cons.prems(4) m have km: "k = m" by simp
    from mlen mlab fresh km have "label (?ns1 ! k) \<notin> set ps" by simp
    from color_priors_other [OF run this] km mlen col show ?thesis by simp
  next
    case False
    with Cons.prems(3) have p: "p \<in> set ps" by simp
    from False get_taxon_Some [OF Cons.prems(4)] mlab have km: "k \<noteq> m" by auto
    have "get_taxon ?ns1 p = Some k"
      using get_taxon_cong [OF labels_update [OF mlen]] Cons.prems(4) by simp
    from Cons.IH [OF run d p this] km show ?thesis by simp
  qed
qed

lemma special_taxa_eq:
  "special_taxa centers prior_centers = set centers \<union> set (prior_list prior_centers)"
proof (cases prior_centers)
  case None
  then show ?thesis by (simp add: special_taxa_def truthy_def prior_list_def)
next
  case (Some ps)
  then show ?thesis by (cases ps) (simp_all add: special_taxa_def truthy_def prior_list_def)
qed

lemma prior_list_truthy: "p \<in> set (prior_list prior_centers) \<Longrightarrow> truthy prior_centers"
  by (cases prior_centers) (auto simp: truthy_def prior_list_def)

lemma label_nth: "map label ns' = map label ns \<Longrightarrow> k < length ns \<Longrightarrow> label (ns' ! k) = label (ns ! k)"
proof -
  assume eq: "map label ns' = map label ns" and k: "k < length ns"
  from eq have len: "length ns' = length ns" by (rule map_eq_imp_length_eq)
  from k len have "label (ns' ! k) = map label ns' ! k" by simp
  also from eq have "\<dots> = map label ns ! k" by simp
  also from k have "\<dots> = label (ns ! k)" by simp
  finally show ?thesis .
qed

text \<open>
  C10, as the code has it. Let the labels of the namespace be pairwise different,
  the centers pairwise different, the prior centers pairwise different, and no
  label both a center and a prior center. After \<^verbatim>\<open>color_by_clusters\<close> returns,
  the namespace has the taxa it had, and every taxon carries exactly one colour
  (what it carried before is dropped): black when its label is neither a center
  nor a prior center, the i-th colour of \<^verbatim>\<open>hex_colors\<close> when it is \<^verbatim>\<open>centers[i]\<close>, and
  the reserved colour when it is a prior center.
\<close>

theorem taxa_colored_once:
  assumes run: "color_by_clusters annotate tree centers prior_centers radius = Inr tree'"
    and labels: "distinct (map label (taxon_namespace (annotate tree centers prior_centers radius)))"
    and dc: "distinct centers"
    and dp: "distinct (prior_list prior_centers)"
    and disj: "set centers \<inter> set (prior_list prior_centers) = {}"
    and k: "k < length (taxon_namespace (annotate tree centers prior_centers radius))"
  shows "length (taxon_namespace tree')
           = length (taxon_namespace (annotate tree centers prior_centers radius))
         \<and> label (taxon_namespace tree' ! k)
           = label (taxon_namespace (annotate tree centers prior_centers radius) ! k)
         \<and> length (values_of (annotations (taxon_namespace tree' ! k)) ''!color'') = 1
         \<and> (label (taxon_namespace tree' ! k) \<notin> set centers \<union> set (prior_list prior_centers)
              \<longrightarrow> values_of (annotations (taxon_namespace tree' ! k)) ''!color'' = [black])
         \<and> (\<forall>i < length centers. label (taxon_namespace tree' ! k) = centers ! i
              \<longrightarrow> values_of (annotations (taxon_namespace tree' ! k)) ''!color''
                    = [hex_colors centers prior_centers ! i])
         \<and> (label (taxon_namespace tree' ! k) \<in> set (prior_list prior_centers)
              \<longrightarrow> values_of (annotations (taxon_namespace tree' ! k)) ''!color''
                    = [HsvColor 0 (length centers + 1)])"
proof -
  let ?t = "annotate tree centers prior_centers radius"
  let ?ns0 = "taxon_namespace ?t"
  let ?pc = "prior_color centers prior_centers"
  let ?cs = "hex_colors centers prior_centers"
  let ?ps = "prior_list prior_centers"
  let ?ns1 = "map (color_regular (special_taxa centers prior_centers)) ?ns0"
  let ?lk = "label (?ns0 ! k)"
  from color_by_clusters_InrD [OF run] obtain store ns2 ns3
    where c: "color_centers ?cs 0 centers ?ns1 = Inr ns2"
      and p: "(if truthy prior_centers then color_priors ?pc ?ps ns2 else Inr ns2) = Inr ns3"
      and t': "tree' = ?t\<lparr>node_annotations := store, taxon_namespace := ns3\<rparr>"
    by blast
  from t' have ns': "taxon_namespace tree' = ns3" by simp
  have l1: "map label ?ns1 = map label ?ns0" by simp
  from color_centers_labels [OF c] l1 have l2: "map label ns2 = map label ?ns0" by simp
  have l32: "map label ns3 = map label ns2"
  proof (cases "truthy prior_centers")
    case True
    with p have "color_priors ?pc ?ps ns2 = Inr ns3" by simp
    then show ?thesis by (rule color_priors_labels)
  next
    case False
    with p show ?thesis by simp
  qed
  with l2 have l3: "map label ns3 = map label ?ns0" by simp
  from l1 have len1: "length ?ns1 = length ?ns0" by simp
  from l2 have len2: "length ns2 = length ?ns0" by (rule map_eq_imp_length_eq)
  from l3 have len3: "length ns3 = length ?ns0" by (rule map_eq_imp_length_eq)
  have lab1: "label (?ns1 ! k) = ?lk" by (rule label_nth [OF l1 k])
  have lab2: "label (ns2 ! k) = ?lk" by (rule label_nth [OF l2 k])
  have lab3: "label (ns3 ! k) = ?lk" by (rule label_nth [OF l3 k])
  let ?v1 = "values_of (annotations (?ns1 ! k)) ''!color''"
  let ?v2 = "values_of (annotations (ns2 ! k)) ''!color''"
  let ?v3 = "values_of (annotations (ns3 ! k)) ''!color''"
  from k have "?ns1 ! k = color_regular (special_taxa centers prior_centers) (?ns0 ! k)"
    by simp
  then have v1: "?v1 = (if ?lk \<in> set centers \<union> set ?ps then [] else [black])"
    by (simp add: values_color_regular special_taxa_eq)
  have c_other: "?v2 = ?v1" if "?lk \<notin> set centers"
  proof -
    from that lab1 have "label (?ns1 ! k) \<notin> set centers" by simp
    from color_centers_other [OF c this] show ?thesis by simp
  qed
  have c_hit: "?v2 = ?v1 @ [?cs ! i]" if i: "i < length centers" and eq: "?lk = centers ! i" for i
  proof -
    have d1: "distinct (map label ?ns1)" unfolding l1 by (rule labels)
    from k len1 have k1: "k < length ?ns1" by simp
    from get_taxon_distinct [OF d1 k1] lab1 eq
    have "get_taxon ?ns1 (centers ! i) = Some k" by simp
    from color_centers_hit [OF c dc i this] show ?thesis by simp
  qed
  have p_other: "?v3 = ?v2" if "?lk \<notin> set ?ps"
  proof (cases "truthy prior_centers")
    case True
    with p have run_p: "color_priors ?pc ?ps ns2 = Inr ns3" by simp
    from that lab2 have "label (ns2 ! k) \<notin> set ?ps" by simp
    from color_priors_other [OF run_p this] show ?thesis by simp
  next
    case False
    with p show ?thesis by simp
  qed
  have p_hit: "?v3 = ?v2 @ [HsvColor 0 (length centers + 1)]" if mem: "?lk \<in> set ?ps"
  proof -
    from prior_list_truthy [OF mem] p have run_p: "color_priors ?pc ?ps ns2 = Inr ns3"
      by simp
    have d2: "distinct (map label ns2)" unfolding l2 by (rule labels)
    from k len2 have k2: "k < length ns2" by simp
    from get_taxon_distinct [OF d2 k2] lab2 have "get_taxon ns2 ?lk = Some k" by simp
    from color_priors_hit [OF run_p dp mem this] obtain col
      where col: "?pc = Some col" and v: "?v3 = ?v2 @ [col]"
      by blast
    from prior_color_Some [OF col] v show ?thesis by simp
  qed
  have result: "length ?v3 = 1
                \<and> (?lk \<notin> set centers \<union> set ?ps \<longrightarrow> ?v3 = [black])
                \<and> (\<forall>i < length centers. ?lk = centers ! i \<longrightarrow> ?v3 = [?cs ! i])
                \<and> (?lk \<in> set ?ps \<longrightarrow> ?v3 = [HsvColor 0 (length centers + 1)])"
  proof (cases "?lk \<in> set ?ps")
    case True
    with disj have nc: "?lk \<notin> set centers" by auto
    from p_hit [OF True] c_other [OF nc] v1 True
    have v: "?v3 = [HsvColor 0 (length centers + 1)]" by simp
    from nc have "\<forall>i < length centers. ?lk = centers ! i \<longrightarrow> ?v3 = [?cs ! i]"
      by (metis nth_mem)
    with v True show ?thesis by simp
  next
    case np: False
    show ?thesis
    proof (cases "?lk \<in> set centers")
      case True
      have each: "?v3 = [?cs ! i]" if "i < length centers" "?lk = centers ! i" for i
        using c_hit [OF that] p_other [OF np] v1 True by simp
      from True obtain i0 where i0: "i0 < length centers" "centers ! i0 = ?lk"
        by (auto simp: in_set_conv_nth)
      from each [of i0] i0 have "length ?v3 = 1" by simp
      with each np True show ?thesis by simp
    next
      case False
      from p_other [OF np] c_other [OF False] v1 np False have v: "?v3 = [black]" by simp
      from False have "\<forall>i < length centers. ?lk = centers ! i \<longrightarrow> ?v3 = [?cs ! i]"
        by (metis nth_mem)
      with v np False show ?thesis by simp
    qed
  qed
  from result have one: "length ?v3 = 1" by blast
  from result have blk: "?lk \<notin> set centers \<union> set ?ps \<longrightarrow> ?v3 = [black]" by blast
  from result have cen: "\<forall>i < length centers. ?lk = centers ! i \<longrightarrow> ?v3 = [?cs ! i]" by blast
  from result have pri: "?lk \<in> set ?ps \<longrightarrow> ?v3 = [HsvColor 0 (length centers + 1)]" by blast
  from len3 lab3 one blk cen pri show ?thesis
    unfolding ns' lab3 by blast
qed

theorem taxa_colored_once_witness:
  "\<exists>tree'. color_by_clusters already_annotated cherry [''a''] (Some [''b'']) None = Inr tree'
      \<and> length (taxon_namespace tree') = 2
      \<and> values_of (annotations (taxon_namespace tree' ! 0)) ''!color'' = [HsvColor 1 2]"
proof -
  let ?run = "color_by_clusters already_annotated cherry [''a''] (Some [''b'']) None"
  let ?t = "already_annotated cherry [''a''] (Some [''b'']) None"
  have "case ?run of Inl err \<Rightarrow> False | Inr t \<Rightarrow> True" by code_simp
  then obtain tree' where h1: "?run = Inr tree'" by (cases ?run) simp_all
  have h2: "distinct (map label (taxon_namespace ?t))" by code_simp
  have h3: "distinct [''a'']" by simp
  have h4: "distinct (prior_list (Some [''b'']))" by code_simp
  have h5: "set [''a''] \<inter> set (prior_list (Some [''b''])) = {}" by code_simp
  have h6: "0 < length (taxon_namespace ?t)" by code_simp
  have len: "length (taxon_namespace ?t) = 2" by code_simp
  have lab: "label (taxon_namespace ?t ! 0) = [''a''] ! 0" by code_simp
  have color: "hex_colors [''a''] (Some [''b'']) ! 0 = HsvColor 1 2" by code_simp
  from taxa_colored_once [OF h1 h2 h3 h4 h5 h6] len lab color
  have "length (taxon_namespace tree') = 2
        \<and> values_of (annotations (taxon_namespace tree' ! 0)) ''!color'' = [HsvColor 1 2]"
    by simp
  with h1 show ?thesis by blast
qed

text \<open>
  C10 as stated fails for a label that is both a center and a prior center: the
  taxon a below ends with two colours, that of center 0 and the reserved one.
\<close>

theorem center_and_prior_counterexample:
  "result_taxa (color_by_clusters already_annotated cherry [''a''] (Some [''a'']) None)
     = Inr [\<lparr>label = ''a'',
              annotations = [(''!color'', HsvColor 1 2), (''!color'', HsvColor 0 2)]\<rparr>,
            \<lparr>label = ''b'', annotations = [(''!color'', StrV ''#000000'')]\<rparr>]"
  by code_simp

end
